theory Spec2Isabelle
  imports Complex_Main
begin

section \<open>Kinodynamic steering method (steering-kinodynamic.cc)\<close>

text \<open>
  The C++ type \<open>double\<close> is idealised as \<open>real\<close>. Where the C++ computation leaves
  the finite numbers (a division by zero, which yields an infinity or a NaN that then
  reaches an output), the model returns \<open>None\<close>. A NaN that the code discards (the roots
  of a quadratic with negative discriminant in \<open>computeMinTime\<close>, where every comparison
  with NaN is false) is modelled by the branch the code then takes.
\<close>

record Device =
  configSize :: int
  extraConfigSpace_dimension :: int

record Problem =
  robot :: Device

text \<open>What the constructor and the numeric routines write to \<open>std::cout\<close>.\<close>

datatype message =
    NeedExtraDOF int
  | NegativeDeterminant

record Kinodynamic =
  device :: Device
  aMax :: real
  vMax :: real

text \<open>
  \<open>Kinodynamic::Kinodynamic (const Problem&)\<close>: the check of the extra degrees of
  freedom only prints; both bounds are then set unconditionally. The result is the
  printed output together with the constructed object.
\<close>

definition Kinodynamic_ctor :: "Problem \<Rightarrow> message list \<times> Kinodynamic" where
  "Kinodynamic_ctor problem =
     ((if 2 * extraConfigSpace_dimension (robot problem) < configSize (robot problem)
       then [NeedExtraDOF (configSize (robot problem)
                           - extraConfigSpace_dimension (robot problem))]
       else []),
      \<lparr> device = robot problem, aMax = 0.5, vMax = 1 \<rparr>)"

text \<open>
  Modelled from the spec: \<open>sgn\<close> is declared in steering-kinodynamic.hh, which is not
  among the sources. The spec calls it \<open>sign\<close>; it is taken to be the usual three-valued
  sign with \<open>sgn 0 = 0\<close>.
\<close>

definition sgn_of :: "real \<Rightarrow> int" where
  "sgn_of x = (if 0 < x then 1 else if x < 0 then - 1 else 0)"

record MinTime =
  total_T :: real
  sigma :: int
  t1 :: real
  tv :: real
  t2 :: real

text \<open>
  \<open>Kinodynamic::computeMinTime\<close>. The first component is the printed output, the second
  the returned total time with the four output parameters. With \<open>aMax = 0\<close> or
  \<open>sigma = 0\<close> the code divides by a zero acceleration and \<open>t1\<close> of the three-segment
  branch (the only branch left, every comparison with NaN being false) is not finite;
  with \<open>vLim = 0\<close> the three-segment \<open>tv\<close> is not finite.
\<close>

definition computeMinTime ::
  "Kinodynamic \<Rightarrow> real \<Rightarrow> real \<Rightarrow> real \<Rightarrow> real \<Rightarrow> message list \<times> MinTime option" where
  "computeMinTime this p1 p2 v1 v2 =
     (if aMax this = 0 then ([], None)
      else
        let deltaPacc = 0.5 * (v1 - v2) * (\<bar>v2 - v1\<bar> / aMax this);
            sg = sgn_of (p2 - p1 - deltaPacc)
        in if sg = 0 then ([], None)
        else
        let a1 = real_of_int sg * aMax this;
            a2 = - a1;
            vLim = real_of_int sg * vMax this;
            minT1 = max 0 ((v2 - v1) / a2);
            delta = 4 * v1 * v1 - 4 * a1 * (((v2 * v2 - v1 * v1) / (2 * a2)) - (p2 - p1));
            out = (if delta < 0 then [NegativeDeterminant] else []);
            x1 = (- 2 * v1 + sqrt delta) / (2 * a1);
            x2 = (- 2 * v1 - sqrt delta) / (2 * a1);
            x = max x1 x2;
            twoSegment0 = (0 \<le> delta \<and> x > minT1);
            t1_0 = (if twoSegment0 then x else minT1);
            twoSegment = (twoSegment0 \<and> \<not> (v1 + t1_0 * a1 > vLim))
        in if twoSegment
           then (out, Some \<lparr> total_T = t1_0 + 0 + ((v2 - v1) / a2 + t1_0), sigma = sg,
                             t1 = t1_0, tv = 0, t2 = (v2 - v1) / a2 + t1_0 \<rparr>)
           else if vLim = 0 then (out, None)
           else
             let t1' = (vLim - v1) / a1;
                 tv' = (v1 * v1 + v2 * v2 - 2 * vLim * vLim) / (2 * vLim * a1)
                       + (p2 - p1) / vLim;
                 t2' = (v2 - vLim) / a2
             in (out, Some \<lparr> total_T = t1' + tv' + t2', sigma = sg,
                              t1 = t1', tv = tv', t2 = t2' \<rparr>))"

record FixedTime =
  ft_a1 :: real
  ft_a2 :: real
  ft_t1 :: real
  ft_tv :: real
  ft_t2 :: real

text \<open>
  The three-segment branch of \<open>Kinodynamic::fixedTimeTrajectory\<close> (the \<open>else\<close> block that
  adjusts the acceleration), as a function of \<open>vLim\<close>. A zero denominator makes \<open>a1\<close>
  infinite or NaN, a zero \<open>a1\<close> makes \<open>t1\<close> NaN and a zero \<open>vLim\<close> makes \<open>tv\<close> infinite
  or NaN.
\<close>

definition fixedTime_threeSegment ::
  "real \<Rightarrow> real \<Rightarrow> real \<Rightarrow> real \<Rightarrow> real \<Rightarrow> real \<Rightarrow> FixedTime option" where
  "fixedTime_threeSegment vLim T p1 p2 v1 v2 =
     (let den = 2 * (vLim * T - (p2 - p1));
          a1 = ((vLim - v1) * (vLim - v1) + (vLim - v2) * (vLim - v2)) / den
      in if den = 0 \<or> a1 = 0 \<or> vLim = 0 then None
         else Some \<lparr> ft_a1 = a1, ft_a2 = - a1,
                     ft_t1 = (vLim - v1) / a1,
                     ft_tv = (v1 * v1 + v2 * v2 - 2 * vLim * vLim) / (2 * vLim * a1)
                             + (p2 - p1) / vLim,
                     ft_t2 = (v2 - vLim) / (- a1) \<rparr>)"

text \<open>
  \<open>Kinodynamic::fixedTimeTrajectory\<close>. A negative discriminant makes both roots NaN,
  \<open>sgn\<close> of NaN is \<open>0\<close> and the three-segment branch then divides by \<open>vLim = 0\<close>; the
  same happens when the chosen root is \<open>0\<close>. With \<open>T = 0\<close> both roots are quotients by
  zero: for \<open>p2 > p1\<close> the chosen root is \<open>+\<infinity>\<close>, the velocity test compares a NaN, and
  the three-segment branch runs with \<open>vLim = vMax\<close>; otherwise the chosen root is NaN.
\<close>

definition fixedTimeTrajectory ::
  "Kinodynamic \<Rightarrow> real \<Rightarrow> real \<Rightarrow> real \<Rightarrow> real \<Rightarrow> real \<Rightarrow> message list \<times> FixedTime option" where
  "fixedTimeTrajectory this T p1 p2 v1 v2 =
     (let v12 = v1 + v2;
          v2_1 = v2 - v1;
          p2_1 = p2 - p1;
          delta = 4 * T * T * (v12 * v12 * v2_1 * v2_1) - 16 * T * v12 * p2_1
                  + 16 * p2_1 * p2_1;
          out = (if delta < 0 then [NegativeDeterminant] else []);
          b = 2 * T * v12 - 4 * p2_1;
          a_2 = 2 * T * T
      in if delta < 0 then (out, None)
      else if a_2 = 0
      then (if p2_1 > 0 then (out, fixedTime_threeSegment (vMax this) T p1 p2 v1 v2)
            else (out, None))
      else
        let x1 = (- b - sqrt delta) / a_2;
            x2 = (- b + sqrt delta) / a_2;
            a1 = (if \<bar>x1\<bar> > \<bar>x2\<bar> then x1 else x2)
        in if a1 = 0 then (out, None)
        else
          let t1_0 = 0.5 * ((v2_1 / a1) + T);
              vLim = real_of_int (sgn_of a1) * vMax this
          in if v1 + t1_0 * a1 < vLim
             then (out, Some \<lparr> ft_a1 = a1, ft_a2 = - a1, ft_t1 = t1_0, ft_tv = 0,
                               ft_t2 = T - t1_0 \<rparr>)
             else (out, fixedTime_threeSegment vLim T p1 p2 v1 v2))"

section \<open>Roadmap (roadmap.cc)\<close>

subsection \<open>Objects and the heap\<close>

text \<open>
  Nodes, edges and connected components live on the heap and are referred to by
  pointers, modelled as addresses. A pointer argument is taken to point to a live object
  of its type; the null pointer appears only where the code produces one (the result of
  \<open>nearestNode\<close>) and is then \<open>None\<close>. \<open>value_type\<close> is \<open>double\<close>, idealised as a real
  number or \<open>+\<infinity>\<close>.
\<close>

type_synonym Configuration_t = "real list"
type_synonym NodePtr_t = nat
type_synonym EdgePtr_t = nat
type_synonym ConnectedComponentPtr_t = nat

datatype value_type = Finite real | Infinity

fun less_value :: "value_type \<Rightarrow> value_type \<Rightarrow> bool" where
  "less_value (Finite a) (Finite b) = (a < b)"
| "less_value (Finite a) Infinity = True"
| "less_value Infinity b = False"

datatype error = AssertionFailure | NullDereference

text \<open>
  \<open>ConnectedComponents_t\<close> is a \<open>std::set\<close> of pointers: a container without
  duplicates that is iterated in increasing order. It is modelled as a list kept in that
  form by \<open>set_insert\<close> and \<open>set_erase\<close>.
\<close>

type_synonym ConnectedComponents_t = "ConnectedComponentPtr_t list"

definition set_insert :: "nat \<Rightarrow> nat list \<Rightarrow> nat list" where
  "set_insert x xs = (if x \<in> set xs then xs else insort x xs)"

definition set_erase :: "nat \<Rightarrow> nat list \<Rightarrow> nat list" where
  "set_erase x xs = removeAll x xs"

text \<open>
  Modelled from the spec: the classes \<open>Node\<close>, \<open>Edge\<close> and \<open>ConnectedComponent\<close> are
  declared and implemented in files that are not among the sources (node.cc, edge.cc,
  connected-component.cc). Their fields follow section 3 of the specification: a node
  owns a configuration, a back reference to its component and its incoming and outgoing
  edges; an edge owns its source, its target and a path handle; a component owns its
  member nodes and the components reachable to and from it. The members
  \<open>reachableTo_\<close> and \<open>reachableFrom_\<close> are the ones \<open>Roadmap::connect\<close> writes.
\<close>

record Node =
  configuration :: Configuration_t
  connectedComponent :: ConnectedComponentPtr_t
  outEdges :: "EdgePtr_t list"
  inEdges :: "EdgePtr_t list"

record 'path Edge =
  edge_from :: NodePtr_t
  edge_to :: NodePtr_t
  edge_path :: 'path

record ConnectedComponent =
  cc_nodes :: "NodePtr_t list"
  reachableTo :: ConnectedComponents_t
  reachableFrom :: ConnectedComponents_t

text \<open>
  The members of class \<open>Roadmap\<close> as its constructor initialises them, followed by the
  heap: the objects at each address and the next free address of each kind.

  Modelled from the spec: the k-d tree (k-d-tree.cc is not among the sources) is
  represented by the nodes added to it, in insertion order; see \<open>KDTree_search\<close>.
\<close>

record 'path Roadmap =
  distance :: "Configuration_t \<Rightarrow> Configuration_t \<Rightarrow> real"
  connectedComponents :: ConnectedComponents_t
  nodes :: "NodePtr_t list"
  edges :: "EdgePtr_t list"
  initNode :: "NodePtr_t option"
  goalNodes :: "NodePtr_t list"
  kdTree :: "NodePtr_t list"
  node_heap :: "NodePtr_t \<Rightarrow> Node"
  edge_heap :: "EdgePtr_t \<Rightarrow> 'path Edge option"
  cc_heap :: "ConnectedComponentPtr_t \<Rightarrow> ConnectedComponent"
  next_node :: nat
  next_edge :: nat
  next_cc :: nat

subsection \<open>Operations of the absent classes\<close>

text \<open>
  Modelled from the spec: \<open>ConnectedComponent::create\<close> and the two constructors of
  \<open>Node\<close>. The comment in \<open>Roadmap::addNode\<close> says that the one-argument constructor
  creates a new connected component; the roadmap registers the node in it afterwards.
\<close>

definition Node_new ::
  "'path Roadmap \<Rightarrow> Configuration_t \<Rightarrow> NodePtr_t \<times> 'path Roadmap" where
  "Node_new rm q =
     (let c = next_cc rm; n = next_node rm
      in (n, rm\<lparr> cc_heap := (cc_heap rm)
                    (c := \<lparr> cc_nodes = [], reachableTo = [], reachableFrom = [] \<rparr>),
                  node_heap := (node_heap rm)
                    (n := \<lparr> configuration = q, connectedComponent = c,
                            outEdges = [], inEdges = [] \<rparr>),
                  next_cc := Suc c, next_node := Suc n \<rparr>))"

definition Node_new_in ::
  "'path Roadmap \<Rightarrow> Configuration_t \<Rightarrow> ConnectedComponentPtr_t
   \<Rightarrow> NodePtr_t \<times> 'path Roadmap" where
  "Node_new_in rm q cc =
     (let n = next_node rm
      in (n, rm\<lparr> node_heap := (node_heap rm)
                    (n := \<lparr> configuration = q, connectedComponent = cc,
                            outEdges = [], inEdges = [] \<rparr>),
                  next_node := Suc n \<rparr>))"

text \<open>Modelled from the spec: the constructor of \<open>Edge\<close>.\<close>

definition Edge_new ::
  "'path Roadmap \<Rightarrow> NodePtr_t \<Rightarrow> NodePtr_t \<Rightarrow> 'path \<Rightarrow> EdgePtr_t \<times> 'path Roadmap" where
  "Edge_new rm n1 n2 p =
     (let e = next_edge rm
      in (e, rm\<lparr> edge_heap := (edge_heap rm)
                    (e \<mapsto> \<lparr> edge_from = n1, edge_to = n2, edge_path = p \<rparr>),
                  next_edge := Suc e \<rparr>))"

text \<open>
  Modelled from the spec: \<open>Node::addOutEdge\<close> and \<open>Node::addInEdge\<close> append the edge to
  the node's outgoing, respectively incoming, edges.
\<close>

definition Node_addOutEdge :: "'path Roadmap \<Rightarrow> NodePtr_t \<Rightarrow> EdgePtr_t \<Rightarrow> 'path Roadmap" where
  "Node_addOutEdge rm n e =
     rm\<lparr> node_heap := (node_heap rm)
            (n := (node_heap rm n)\<lparr> outEdges := outEdges (node_heap rm n) @ [e] \<rparr>) \<rparr>"

definition Node_addInEdge :: "'path Roadmap \<Rightarrow> NodePtr_t \<Rightarrow> EdgePtr_t \<Rightarrow> 'path Roadmap" where
  "Node_addInEdge rm n e =
     rm\<lparr> node_heap := (node_heap rm)
            (n := (node_heap rm n)\<lparr> inEdges := inEdges (node_heap rm n) @ [e] \<rparr>) \<rparr>"

text \<open>Modelled from the spec: \<open>ConnectedComponent::addNode\<close> appends a member node.\<close>

definition ConnectedComponent_addNode ::
  "'path Roadmap \<Rightarrow> ConnectedComponentPtr_t \<Rightarrow> NodePtr_t \<Rightarrow> 'path Roadmap" where
  "ConnectedComponent_addNode rm c n =
     rm\<lparr> cc_heap := (cc_heap rm)
            (c := (cc_heap rm c)\<lparr> cc_nodes := cc_nodes (cc_heap rm c) @ [n] \<rparr>) \<rparr>"

text \<open>
  Modelled from the spec: \<open>ConnectedComponent::canReach\<close>. By sections 4.1 and 4.2 of
  the specification \<open>can_reach\<close> is reachability in the directed graph of components,
  reflexive reachability being implicit (section 3). The sets \<open>reachableTo_\<close> hold the
  links that \<open>Roadmap::connect\<close> inserted and are not transitively closed, so the test is
  a search along these links: breadth first from \<open>this\<close>, every component explored once.
  Each exploration takes a component not explored before, and the components are live
  objects, of which there are at most \<open>next_cc\<close>; the search is therefore given
  \<open>next_cc + 1\<close> explorations, which is enough on every consistent roadmap (lemma
  \<open>canReach_iff_links\<close> below).
\<close>

fun explore ::
  "(ConnectedComponentPtr_t \<Rightarrow> ConnectedComponents_t) \<Rightarrow> nat
   \<Rightarrow> ConnectedComponentPtr_t list \<Rightarrow> ConnectedComponentPtr_t list
   \<Rightarrow> ConnectedComponentPtr_t list" where
  "explore succs 0 queue explored = explored"
| "explore succs (Suc n) [] explored = explored"
| "explore succs (Suc n) (current # queue) explored =
     (if current \<in> set explored then explore succs (Suc n) queue explored
      else explore succs n (queue @ succs current) (explored @ [current]))"

definition downward_closure ::
  "'path Roadmap \<Rightarrow> ConnectedComponentPtr_t \<Rightarrow> ConnectedComponentPtr_t list" where
  "downward_closure rm this =
     explore (\<lambda>c. reachableTo (cc_heap rm c)) (Suc (next_cc rm)) [this] []"

definition canReach ::
  "'path Roadmap \<Rightarrow> ConnectedComponentPtr_t \<Rightarrow> ConnectedComponentPtr_t \<Rightarrow> bool" where
  "canReach rm this cc = (cc \<in> set (downward_closure rm this))"

text \<open>
  Modelled from the spec: the two-argument \<open>ConnectedComponent::canReach\<close>, which
  returns the same boolean and fills its second argument, a \<open>std::set\<close>, with the set
  \<open>R = {c : this can reach c and c can reach the target}\<close> of section 4.1: the downward
  closure of \<open>this\<close> intersected with the upward closure of the target, both along any
  number of links.
\<close>

definition canReach_collect ::
  "'path Roadmap \<Rightarrow> ConnectedComponentPtr_t \<Rightarrow> ConnectedComponentPtr_t
   \<Rightarrow> bool \<times> ConnectedComponents_t" where
  "canReach_collect rm this cc =
     (canReach rm this cc,
      fold set_insert (filter (\<lambda>c. canReach rm c cc) (downward_closure rm this)) [])"

text \<open>
  Modelled from the spec: \<open>ConnectedComponent::merge\<close>, the merge algorithm of section
  4.1 without its last step (removing the absorbed component from the roadmap's set is
  done by \<open>Roadmap::merge\<close>): the nodes of \<open>other\<close> are moved into \<open>this\<close> and re-pointed
  to it, the reachability sets of \<open>this\<close> become the unions minus \<open>this\<close> and \<open>other\<close>,
  and in the sets of every other component \<open>other\<close> is replaced by \<open>this\<close>.
\<close>

definition set_replace :: "nat \<Rightarrow> nat \<Rightarrow> nat list \<Rightarrow> nat list" where
  "set_replace old new xs =
     (if old \<in> set xs then set_insert new (set_erase old xs) else xs)"

definition ConnectedComponent_merge ::
  "'path Roadmap \<Rightarrow> ConnectedComponentPtr_t \<Rightarrow> ConnectedComponentPtr_t \<Rightarrow> 'path Roadmap" where
  "ConnectedComponent_merge rm this other =
     (let c = cc_heap rm this; c' = cc_heap rm other
      in rm\<lparr> node_heap :=
               (\<lambda>n. if n \<in> set (cc_nodes c')
                    then (node_heap rm n)\<lparr> connectedComponent := this \<rparr>
                    else node_heap rm n),
             cc_heap :=
               (\<lambda>x. if x = this
                    then \<lparr> cc_nodes = cc_nodes c @ cc_nodes c',
                           reachableTo = set_erase this (set_erase other
                             (fold set_insert (reachableTo c') (reachableTo c))),
                           reachableFrom = set_erase this (set_erase other
                             (fold set_insert (reachableFrom c') (reachableFrom c))) \<rparr>
                    else if x = other then c'\<lparr> cc_nodes := [] \<rparr>
                    else (cc_heap rm x)
                           \<lparr> reachableTo := set_replace other this (reachableTo (cc_heap rm x)),
                             reachableFrom :=
                               set_replace other this (reachableFrom (cc_heap rm x)) \<rparr>) \<rparr>)"

text \<open>
  Modelled from the spec: \<open>KDTree::addNode\<close> and \<open>KDTree::search\<close>. By section 4.3 the
  search is a nearest-neighbour search restricted to the nodes whose component equals
  \<open>cc\<close>, ties broken by insertion order; it is modelled by the scan it must agree with.
  With no node of \<open>cc\<close> in the tree it returns the null pointer and \<open>+\<infinity>\<close>.
\<close>

definition KDTree_addNode :: "'path Roadmap \<Rightarrow> NodePtr_t \<Rightarrow> 'path Roadmap" where
  "KDTree_addNode rm n = rm\<lparr> kdTree := kdTree rm @ [n] \<rparr>"

definition KDTree_scan ::
  "'path Roadmap \<Rightarrow> Configuration_t \<Rightarrow> ConnectedComponentPtr_t \<Rightarrow> NodePtr_t
   \<Rightarrow> NodePtr_t option \<times> value_type \<Rightarrow> NodePtr_t option \<times> value_type" where
  "KDTree_scan rm q cc n best =
     (let d = Finite (distance rm q (configuration (node_heap rm n)))
      in if connectedComponent (node_heap rm n) = cc \<and> less_value d (snd best)
         then (Some n, d) else best)"

definition KDTree_search ::
  "'path Roadmap \<Rightarrow> Configuration_t \<Rightarrow> ConnectedComponentPtr_t
   \<Rightarrow> NodePtr_t option \<times> value_type" where
  "KDTree_search rm q cc = fold (KDTree_scan rm q cc) (kdTree rm) (None, Infinity)"

subsection \<open>The operations of class Roadmap\<close>

text \<open>
  \<open>Roadmap::Roadmap\<close>: every container is empty; the robot is passed on to the k-d tree
  only. The heap of a new roadmap holds no object yet; what the model puts at the
  unallocated addresses is never read.
\<close>

definition Roadmap_create ::
  "(Configuration_t \<Rightarrow> Configuration_t \<Rightarrow> real) \<Rightarrow> 'path Roadmap" where
  "Roadmap_create d =
     \<lparr> distance = d, connectedComponents = [], nodes = [], edges = [],
       initNode = None, goalNodes = [], kdTree = [],
       node_heap = (\<lambda>n. \<lparr> configuration = [], connectedComponent = 0,
                           outEdges = [], inEdges = [] \<rparr>),
       edge_heap = Map.empty,
       cc_heap = (\<lambda>c. \<lparr> cc_nodes = [], reachableTo = [], reachableFrom = [] \<rparr>),
       next_node = 0, next_edge = 0, next_cc = 0 \<rparr>"

text \<open>\<open>Roadmap::clear\<close>.\<close>

definition clear :: "'path Roadmap \<Rightarrow> 'path Roadmap" where
  "clear rm = rm\<lparr> connectedComponents := [], nodes := [], edges := [],
                  goalNodes := [], initNode := None, kdTree := [] \<rparr>"

text \<open>\<open>Roadmap::addConnectedComponent\<close>.\<close>

definition addConnectedComponent :: "'path Roadmap \<Rightarrow> NodePtr_t \<Rightarrow> 'path Roadmap" where
  "addConnectedComponent rm node =
     (let c = connectedComponent (node_heap rm node);
          rm1 = rm\<lparr> connectedComponents := set_insert c (connectedComponents rm) \<rparr>;
          rm2 = ConnectedComponent_addNode rm1 c node
      in KDTree_addNode rm2 node)"

text \<open>
  \<open>Roadmap::nearestNode (configuration, minDistance)\<close>: the loop over the connected
  components, from the null pointer and \<open>+\<infinity>\<close>. The roadmap is only read.
\<close>

definition nearestNode_step ::
  "'path Roadmap \<Rightarrow> Configuration_t \<Rightarrow> ConnectedComponentPtr_t
   \<Rightarrow> NodePtr_t option \<times> value_type \<Rightarrow> NodePtr_t option \<times> value_type" where
  "nearestNode_step rm q itcc best =
     (let (node, d) = KDTree_search rm q itcc
      in if less_value d (snd best) then (node, d) else best)"

definition nearestNode ::
  "'path Roadmap \<Rightarrow> Configuration_t \<Rightarrow> NodePtr_t option \<times> value_type" where
  "nearestNode rm q = fold (nearestNode_step rm q) (connectedComponents rm) (None, Infinity)"

text \<open>\<open>Roadmap::nearestNode (configuration, connectedComponent, minDistance)\<close>.\<close>

definition nearestNode_in ::
  "'path Roadmap \<Rightarrow> Configuration_t \<Rightarrow> ConnectedComponentPtr_t
   \<Rightarrow> error + (NodePtr_t option \<times> value_type)" where
  "nearestNode_in rm q cc =
     (if cc_nodes (cc_heap rm cc) = [] then Inl AssertionFailure
      else Inr (KDTree_search rm q cc))"

text \<open>
  \<open>Roadmap::addNode (configuration)\<close>. Dereferencing the result of \<open>nearestNode\<close> fails
  when it is the null pointer.
\<close>

definition addNode ::
  "'path Roadmap \<Rightarrow> Configuration_t \<Rightarrow> error + (NodePtr_t \<times> 'path Roadmap)" where
  "addNode rm q =
     (let fresh = (let (node, rm1) = Node_new rm q;
                       rm2 = rm1\<lparr> nodes := nodes rm1 @ [node] \<rparr>
                   in Inr (node, addConnectedComponent rm2 node))
      in if nodes rm \<noteq> []
         then (case fst (nearestNode rm q) of
                 None \<Rightarrow> Inl NullDereference
               | Some nearest \<Rightarrow>
                   if configuration (node_heap rm nearest) = q then Inr (nearest, rm)
                   else fresh)
         else fresh)"

text \<open>\<open>Roadmap::addNode (configuration, connectedComponent)\<close>.\<close>

definition addNode_in ::
  "'path Roadmap \<Rightarrow> Configuration_t \<Rightarrow> ConnectedComponentPtr_t
   \<Rightarrow> error + (NodePtr_t \<times> 'path Roadmap)" where
  "addNode_in rm q cc =
     (let fresh = (let (node, rm1) = Node_new_in rm q cc;
                       rm2 = rm1\<lparr> nodes := nodes rm1 @ [node] \<rparr>;
                       rm3 = ConnectedComponent_addNode rm2 cc node
                   in Inr (node, KDTree_addNode rm3 node))
      in if nodes rm \<noteq> []
         then (case nearestNode_in rm q cc of
                 Inl e \<Rightarrow> Inl e
               | Inr (None, d) \<Rightarrow> Inl NullDereference
               | Inr (Some nearest, d) \<Rightarrow>
                   if configuration (node_heap rm nearest) = q then Inr (nearest, rm)
                   else fresh)
         else fresh)"

text \<open>
  \<open>Roadmap::addEdges\<close>. The path handle is opaque; its \<open>reverse\<close> is a parameter.
\<close>

definition addEdges ::
  "('path \<Rightarrow> 'path) \<Rightarrow> 'path Roadmap \<Rightarrow> NodePtr_t \<Rightarrow> NodePtr_t \<Rightarrow> 'path \<Rightarrow> 'path Roadmap" where
  "addEdges reverse rm from to path =
     (let (edge, rm1) = Edge_new rm from to path;
          rm2 = Node_addOutEdge rm1 from edge;
          rm3 = Node_addInEdge rm2 to edge;
          rm4 = rm3\<lparr> edges := edges rm3 @ [edge] \<rparr>;
          (edge', rm5) = Edge_new rm4 to from (reverse path);
          rm6 = Node_addInEdge rm5 from edge';
          rm7 = Node_addOutEdge rm6 to edge'
      in rm7\<lparr> edges := edges rm7 @ [edge'] \<rparr>)"

text \<open>
  \<open>Roadmap::merge\<close>: the loop over \<open>ccs\<close>. The assertion \<open>nb == 1\<close> is modelled as
  compiled without \<open>NDEBUG\<close>: the run fails when the erased component was not in the
  roadmap's set.
\<close>

fun merge ::
  "'path Roadmap \<Rightarrow> ConnectedComponentPtr_t \<Rightarrow> ConnectedComponents_t
   \<Rightarrow> error + 'path Roadmap" where
  "merge rm cc1 [] = Inr rm"
| "merge rm cc1 (itcc # ccs) =
     (if itcc \<noteq> cc1
      then (let rm1 = ConnectedComponent_merge rm cc1 itcc;
                nb = count_list (connectedComponents rm1) itcc;
                rm2 = rm1\<lparr> connectedComponents := set_erase itcc (connectedComponents rm1) \<rparr>
            in if nb = 1 then merge rm2 cc1 ccs else Inl AssertionFailure)
      else merge rm cc1 ccs)"

text \<open>\<open>Roadmap::connect\<close>.\<close>

definition connect ::
  "'path Roadmap \<Rightarrow> ConnectedComponentPtr_t \<Rightarrow> ConnectedComponentPtr_t
   \<Rightarrow> error + 'path Roadmap" where
  "connect rm cc1 cc2 =
     (if canReach rm cc1 cc2 then Inr rm
      else
        let (reached, cc2Tocc1) = canReach_collect rm cc2 cc1
        in if reached then merge rm cc1 cc2Tocc1
           else
             let rm1 = rm\<lparr> cc_heap := (cc_heap rm)
                            (cc1 := (cc_heap rm cc1)
                               \<lparr> reachableTo := set_insert cc2 (reachableTo (cc_heap rm cc1)) \<rparr>) \<rparr>
             in Inr (rm1\<lparr> cc_heap := (cc_heap rm1)
                            (cc2 := (cc_heap rm1 cc2)
                               \<lparr> reachableFrom :=
                                   set_insert cc1 (reachableFrom (cc_heap rm1 cc2)) \<rparr>) \<rparr>))"

text \<open>\<open>Roadmap::addEdge\<close>.\<close>

definition addEdge ::
  "'path Roadmap \<Rightarrow> NodePtr_t \<Rightarrow> NodePtr_t \<Rightarrow> 'path \<Rightarrow> error + (EdgePtr_t \<times> 'path Roadmap)" where
  "addEdge rm n1 n2 path =
     (let (edge, rm1) = Edge_new rm n1 n2 path;
          rm2 = Node_addOutEdge rm1 n1 edge;
          rm3 = Node_addInEdge rm2 n2 edge;
          rm4 = rm3\<lparr> edges := edges rm3 @ [edge] \<rparr>;
          cc1 = connectedComponent (node_heap rm4 n1);
          cc2 = connectedComponent (node_heap rm4 n2)
      in case connect rm4 cc1 cc2 of
           Inl e \<Rightarrow> Inl e
         | Inr rm5 \<Rightarrow> Inr (edge, rm5))"

text \<open>\<open>Roadmap::addNodeAndEdges\<close>.\<close>

definition addNodeAndEdges ::
  "('path \<Rightarrow> 'path) \<Rightarrow> 'path Roadmap \<Rightarrow> NodePtr_t \<Rightarrow> Configuration_t \<Rightarrow> 'path
   \<Rightarrow> error + (NodePtr_t \<times> 'path Roadmap)" where
  "addNodeAndEdges reverse rm from to path =
     (case addNode_in rm to (connectedComponent (node_heap rm from)) of
        Inl e \<Rightarrow> Inl e
      | Inr (nodeTo, rm1) \<Rightarrow> Inr (nodeTo, addEdges reverse rm1 from nodeTo path))"

text \<open>\<open>Roadmap::addGoalNode\<close>.\<close>

definition addGoalNode ::
  "'path Roadmap \<Rightarrow> Configuration_t \<Rightarrow> error + 'path Roadmap" where
  "addGoalNode rm config =
     (case addNode rm config of
        Inl e \<Rightarrow> Inl e
      | Inr (node, rm1) \<Rightarrow> Inr (rm1\<lparr> goalNodes := goalNodes rm1 @ [node] \<rparr>))"

text \<open>
  The roadmaps that a client can build: from a new roadmap, by the public operations
  applied to nodes and components of the roadmap, each run to a normal return.
\<close>

inductive reachable :: "'path Roadmap \<Rightarrow> bool" where
  reach_create: "reachable (Roadmap_create d)"
| reach_clear: "reachable rm \<Longrightarrow> reachable (clear rm)"
| reach_addNode: "reachable rm \<Longrightarrow> addNode rm q = Inr (n, rm') \<Longrightarrow> reachable rm'"
| reach_addNode_in:
    "reachable rm \<Longrightarrow> cc \<in> set (connectedComponents rm)
     \<Longrightarrow> addNode_in rm q cc = Inr (n, rm') \<Longrightarrow> reachable rm'"
| reach_addEdge:
    "reachable rm \<Longrightarrow> n1 \<in> set (nodes rm) \<Longrightarrow> n2 \<in> set (nodes rm)
     \<Longrightarrow> addEdge rm n1 n2 p = Inr (e, rm') \<Longrightarrow> reachable rm'"
| reach_addEdges:
    "reachable rm \<Longrightarrow> n1 \<in> set (nodes rm) \<Longrightarrow> n2 \<in> set (nodes rm)
     \<Longrightarrow> reachable (addEdges rv rm n1 n2 p)"
| reach_addNodeAndEdges:
    "reachable rm \<Longrightarrow> n1 \<in> set (nodes rm)
     \<Longrightarrow> addNodeAndEdges rv rm n1 q p = Inr (n, rm') \<Longrightarrow> reachable rm'"
| reach_addGoalNode:
    "reachable rm \<Longrightarrow> addGoalNode rm q = Inr rm' \<Longrightarrow> reachable rm'"

section \<open>Auxiliary definitions\<close>

subsection \<open>Notions used in the statements\<close>

text \<open>
  The distance from a configuration to the configuration of a node.
\<close>

abbreviation node_distance :: "'path Roadmap \<Rightarrow> Configuration_t \<Rightarrow> NodePtr_t \<Rightarrow> real" where
  "node_distance rm q n \<equiv> distance rm q (configuration (node_heap rm n))"

text \<open>
  The brute-force scan of invariant 5 of the specification, written after its words: the
  least distance from \<open>q\<close> over all nodes of the roadmap.
\<close>

definition nearest_brute_force :: "'path Roadmap \<Rightarrow> Configuration_t \<Rightarrow> real" where
  "nearest_brute_force rm q =
     Min ((\<lambda>n. distance rm q (configuration (node_heap rm n))) ` set (nodes rm))"

text \<open>
  The directed graph of components: the links stored in the sets \<open>reachableTo_\<close>.
  Reachability in it is the reflexive transitive closure \<open>(links rm)\<^sup>*\<close>.
\<close>

definition links ::
  "'path Roadmap \<Rightarrow> (ConnectedComponentPtr_t \<times> ConnectedComponentPtr_t) set" where
  "links rm = {(c, d). d \<in> set (reachableTo (cc_heap rm c))}"

text \<open>
  The links that leave a component of the roadmap. A component absorbed by a merge stays
  on the heap with its old sets, but it is no longer in the roadmap and nothing in the
  roadmap points to it.
\<close>

definition live_links ::
  "'path Roadmap \<Rightarrow> (ConnectedComponentPtr_t \<times> ConnectedComponentPtr_t) set" where
  "live_links rm =
     {(c, d). c \<in> set (connectedComponents rm) \<and> d \<in> set (reachableTo (cc_heap rm c))}"

text \<open>
  The consistency that the public operations keep: every node of the roadmap has an
  address below the next free one, points to a component of the roadmap and is a member
  of that component; the k-d tree holds exactly the nodes of the roadmap; every component
  of the roadmap has an address below the next free one and reachability sets within the
  roadmap's components; the set of components has no duplicates.
\<close>

definition roadmap_inv :: "'path Roadmap \<Rightarrow> bool" where
  "roadmap_inv rm =
     ((\<forall>n\<in>set (nodes rm). n < next_node rm
          \<and> connectedComponent (node_heap rm n) \<in> set (connectedComponents rm)
          \<and> n \<in> set (cc_nodes (cc_heap rm (connectedComponent (node_heap rm n)))))
      \<and> set (kdTree rm) = set (nodes rm)
      \<and> (\<forall>c\<in>set (connectedComponents rm). c < next_cc rm
            \<and> set (reachableTo (cc_heap rm c)) \<subseteq> set (connectedComponents rm)
            \<and> set (reachableFrom (cc_heap rm c)) \<subseteq> set (connectedComponents rm))
      \<and> distinct (connectedComponents rm))"

subsection \<open>Notions used in the proofs\<close>

text \<open>
  What a search has established after looking at the nodes \<open>S\<close> for the components
  \<open>C\<close>: either nothing was found and no node of \<open>S\<close> lies in a component of \<open>C\<close>, or
  the best node lies in \<open>S\<close> and in a component of \<open>C\<close> and is nearest among these.
\<close>

definition best_ok :: "'path Roadmap \<Rightarrow> Configuration_t \<Rightarrow> NodePtr_t set \<Rightarrow> ConnectedComponentPtr_t set \<Rightarrow> NodePtr_t option \<times> value_type \<Rightarrow> bool" where
  "best_ok rm q S C best =
     ((best = (None, Infinity)
        \<and> (\<forall>m\<in>S. connectedComponent (node_heap rm m) \<notin> C))
      \<or> (\<exists>n\<in>S. connectedComponent (node_heap rm n) \<in> C
            \<and> best = (Some n, Finite (node_distance rm q n))
            \<and> (\<forall>m\<in>S. connectedComponent (node_heap rm m) \<in> C
                  \<longrightarrow> node_distance rm q n \<le> node_distance rm q m)))"

text \<open>
  The two results of the branch of \<open>addNode\<close> (respectively of the two-argument
  \<open>addNode\<close>) that creates a node, in closed form.
\<close>

definition addNode_fresh :: "'path Roadmap \<Rightarrow> Configuration_t \<Rightarrow> NodePtr_t \<times> 'path Roadmap" where
  "addNode_fresh rm q =
     (next_node rm,
      rm\<lparr> connectedComponents := set_insert (next_cc rm) (connectedComponents rm),
          nodes := nodes rm @ [next_node rm],
          kdTree := kdTree rm @ [next_node rm],
          node_heap := (node_heap rm)
             (next_node rm := \<lparr> configuration = q, connectedComponent = next_cc rm,
                                outEdges = [], inEdges = [] \<rparr>),
          cc_heap := (cc_heap rm)
             (next_cc rm := \<lparr> cc_nodes = [next_node rm], reachableTo = [],
                              reachableFrom = [] \<rparr>),
          next_node := Suc (next_node rm), next_cc := Suc (next_cc rm) \<rparr>)"

definition addNode_in_fresh ::
  "'path Roadmap \<Rightarrow> Configuration_t \<Rightarrow> ConnectedComponentPtr_t \<Rightarrow> NodePtr_t \<times> 'path Roadmap" where
  "addNode_in_fresh rm q cc =
     (next_node rm,
      rm\<lparr> nodes := nodes rm @ [next_node rm],
          kdTree := kdTree rm @ [next_node rm],
          node_heap := (node_heap rm)
             (next_node rm := \<lparr> configuration = q, connectedComponent = cc,
                                outEdges = [], inEdges = [] \<rparr>),
          cc_heap := (cc_heap rm)
             (cc := (cc_heap rm cc)\<lparr> cc_nodes := cc_nodes (cc_heap rm cc) @ [next_node rm] \<rparr>),
          next_node := Suc (next_node rm) \<rparr>)"

text \<open>
  One iteration of the loop of \<open>Roadmap::merge\<close> on a component other than \<open>cc1\<close>, the
  branch of \<open>Roadmap::connect\<close> that inserts a link, and the part of \<open>Roadmap::addEdge\<close>
  before the call of \<open>connect\<close>.
\<close>

definition merge_step ::
  "'path Roadmap \<Rightarrow> ConnectedComponentPtr_t \<Rightarrow> ConnectedComponentPtr_t \<Rightarrow> 'path Roadmap" where
  "merge_step rm cc1 c =
     (ConnectedComponent_merge rm cc1 c)
       \<lparr> connectedComponents := set_erase c (connectedComponents rm) \<rparr>"

definition connect_insert ::
  "'path Roadmap \<Rightarrow> ConnectedComponentPtr_t \<Rightarrow> ConnectedComponentPtr_t \<Rightarrow> 'path Roadmap" where
  "connect_insert rm cc1 cc2 =
     rm\<lparr> cc_heap := ((cc_heap rm)
            (cc1 := (cc_heap rm cc1)
               \<lparr> reachableTo := set_insert cc2 (reachableTo (cc_heap rm cc1)) \<rparr>))
            (cc2 := (((cc_heap rm)
                (cc1 := (cc_heap rm cc1)
                   \<lparr> reachableTo := set_insert cc2 (reachableTo (cc_heap rm cc1)) \<rparr>)) cc2)
               \<lparr> reachableFrom := set_insert cc1 (reachableFrom (cc_heap rm cc2)) \<rparr>) \<rparr>"

definition add_one_edge ::
  "'path Roadmap \<Rightarrow> NodePtr_t \<Rightarrow> NodePtr_t \<Rightarrow> 'path \<Rightarrow> 'path Roadmap" where
  "add_one_edge rm n1 n2 p =
     (let (edge, rm1) = Edge_new rm n1 n2 p;
          rm2 = Node_addOutEdge rm1 n1 edge;
          rm3 = Node_addInEdge rm2 n2 edge
      in rm3\<lparr> edges := edges rm3 @ [edge] \<rparr>)"

text \<open>
  What \<open>connect\<close> leaves alone: the edges, the nodes' edge lists and configurations,
  the node list, the k-d tree, the metric and the free addresses.
\<close>

definition untouched_by_connect :: "'path Roadmap \<Rightarrow> 'path Roadmap \<Rightarrow> bool" where
  "untouched_by_connect rm rm' =
     (edges rm' = edges rm \<and> edge_heap rm' = edge_heap rm \<and> next_edge rm' = next_edge rm
      \<and> nodes rm' = nodes rm \<and> kdTree rm' = kdTree rm \<and> distance rm' = distance rm
      \<and> initNode rm' = initNode rm \<and> goalNodes rm' = goalNodes rm
      \<and> next_node rm' = next_node rm \<and> next_cc rm' = next_cc rm
      \<and> (\<forall>n. outEdges (node_heap rm' n) = outEdges (node_heap rm n)
             \<and> inEdges (node_heap rm' n) = inEdges (node_heap rm n)
             \<and> configuration (node_heap rm' n) = configuration (node_heap rm n)))"

subsection \<open>Example roadmaps\<close>

text \<open>
  A metric in the sense of section 6 of the specification (symmetric, non-negative, zero
  exactly on equal configurations), and roadmaps built with it by the public operations:
  three nodes \<open>0\<close>, \<open>1\<close>, \<open>2\<close> at the configurations \<open>[0]\<close>, \<open>[1]\<close>, \<open>[2]\<close>, each in its own
  component; then the edge from node \<open>0\<close> to node \<open>1\<close>; then either the edge back from
  \<open>1\<close> to \<open>0\<close>, or the edge from \<open>1\<close> to \<open>2\<close>.
\<close>

definition example_distance :: "Configuration_t \<Rightarrow> Configuration_t \<Rightarrow> real" where
  "example_distance a b = (if a = b then 0 else 1 + \<bar>sum_list a - sum_list b\<bar>)"

definition three_nodes :: "unit Roadmap" where
  "three_nodes =
     snd (projr (addNode (snd (projr (addNode (snd (projr (addNode
       (Roadmap_create example_distance) [0]))) [1]))) [2]))"

definition one_way :: "unit Roadmap" where
  "one_way = snd (projr (addEdge three_nodes 0 1 ()))"

definition two_way :: "unit Roadmap" where
  "two_way = snd (projr (addEdge one_way 1 0 ()))"

definition chain :: "unit Roadmap" where
  "chain = snd (projr (addEdge one_way 1 2 ()))"

section \<open>Properties of the steering method\<close>

lemma computeMinTime_bounds_only:
  assumes "aMax k = aMax k'" and "vMax k = vMax k'"
  shows "computeMinTime k p1 p2 v1 v2 = computeMinTime k' p1 p2 v1 v2"
  unfolding computeMinTime_def assms by (rule refl)

lemma fixedTimeTrajectory_bounds_only:
  assumes "vMax k = vMax k'"
  shows "fixedTimeTrajectory k T p1 p2 v1 v2 = fixedTimeTrajectory k' T p1 p2 v1 v2"
  unfolding fixedTimeTrajectory_def assms by (rule refl)

text \<open>
  The mirror image of the failing input of C7, towards positive positions, on the
  object the constructor builds: the two-segment solution is accepted.
\<close>

lemma computeMinTime_forward_two_segment:
  "computeMinTime (snd (Kinodynamic_ctor problem)) 0 (1/2) 0 0 =
     ([], Some \<lparr> total_T = 2, sigma = 1, t1 = 1, tv = 0, t2 = 1 \<rparr>)"
  by (simp add: Kinodynamic_ctor_def computeMinTime_def sgn_of_def Let_def)

text \<open>
  With \<open>sigma = 1\<close>, a larger root equal to the lower bound \<open>minT1\<close> (here both are
  \<open>1/2\<close>, and the peak velocity \<open>1/2\<close> is within \<open>vMax\<close>) is not accepted either, the test
  being \<open>x > minT1\<close>: the three-segment formulas run, with a negative cruise time. The
  two-segment solution would be \<open>t1 = 1/2\<close>, \<open>t2 = 1\<close>.
\<close>

lemma computeMinTime_root_at_lower_bound:
  "computeMinTime (snd (Kinodynamic_ctor problem)) 0 (7/16) (1/4) 0 =
     ([], Some \<lparr> total_T = 2, sigma = 1, t1 = 3/2, tv = - 3/2, t2 = 2 \<rparr>)"
  by (simp add: Kinodynamic_ctor_def computeMinTime_def sgn_of_def Let_def)

text \<open>
  C6 (as stated, refuted). A robot with a configuration of size 3 of which one
  coordinate is an extra degree of freedom has two controlled axes and fewer than
  \<open>2 * 2\<close> extra degrees of freedom. The constructor prints one message and still
  returns a steering object, with which \<open>computeMinTime\<close> computes a trajectory.
\<close>

theorem C6_ctor_not_rejected_counterexample:
  "Kinodynamic_ctor \<lparr> robot = \<lparr> configSize = 3, extraConfigSpace_dimension = 1 \<rparr> \<rparr> =
     ([NeedExtraDOF 2],
      \<lparr> device = \<lparr> configSize = 3, extraConfigSpace_dimension = 1 \<rparr>,
        aMax = 1 / 2, vMax = 1 \<rparr>)
   \<and> snd (computeMinTime
        (snd (Kinodynamic_ctor
               \<lparr> robot = \<lparr> configSize = 3, extraConfigSpace_dimension = 1 \<rparr> \<rparr>)) 0 (1/8) 0 0) =
     Some \<lparr> total_T = 1, sigma = 1, t1 = 1 / 2, tv = 0, t2 = 1 / 2 \<rparr>"
proof -
  have "sqrt (1 / 4) = 1 / 2"
    by (rule real_sqrt_unique) (simp_all add: power2_eq_square)
  then show ?thesis
    by (simp add: Kinodynamic_ctor_def computeMinTime_def sgn_of_def Let_def)
qed

text \<open>
  C6 (amended). For every problem the constructor returns a steering object for the
  problem's robot with \<open>aMax = 0.5\<close> and \<open>vMax = 1\<close>; it never rejects. When
  \<open>2 * extraConfigSpace.dimension < configSize\<close> it prints one message naming
  \<open>configSize - extraConfigSpace.dimension\<close> as the number of extra degrees of freedom
  needed, otherwise it prints nothing. The object it returns computes trajectories:
  from rest at \<open>0\<close> to rest at \<open>1/8\<close> in total time \<open>1\<close>.
\<close>

theorem C6_ctor_prints_and_constructs:
  "snd (Kinodynamic_ctor problem) = \<lparr> device = robot problem, aMax = 1 / 2, vMax = 1 \<rparr>
   \<and> fst (Kinodynamic_ctor problem) =
       (if 2 * extraConfigSpace_dimension (robot problem) < configSize (robot problem)
        then [NeedExtraDOF (configSize (robot problem)
                            - extraConfigSpace_dimension (robot problem))]
        else [])
   \<and> map_option total_T (snd (computeMinTime (snd (Kinodynamic_ctor problem)) 0 (1/8) 0 0))
       = Some 1"
proof -
  have "sqrt (1 / 4) = 1 / 2"
    by (rule real_sqrt_unique) (simp_all add: power2_eq_square)
  then show ?thesis
    by (simp add: Kinodynamic_ctor_def computeMinTime_def sgn_of_def Let_def)
qed

text \<open>
  C7 (the code at the failing input). On the object the constructor builds
  (\<open>aMax = 0.5\<close>, \<open>vMax = 1\<close>), from rest at \<open>0\<close> to rest at \<open>-1/2\<close>: \<open>sigma = -1\<close>, the
  larger root is \<open>1 > minT1 = 0\<close> and the peak velocity is \<open>-1/2\<close>, within \<open>vMax\<close> in
  magnitude. The test \<open>v1 + t1 * a1 > vLim\<close> compares \<open>-1/2 > -1\<close>, so the two-segment
  solution (\<open>t1 = t2 = 1\<close>, \<open>tv = 0\<close>) is dropped and the three-segment formulas give a
  cruise time of \<open>-3/2\<close>.
\<close>

theorem C7_negative_sigma_takes_three_segments:
  "computeMinTime (snd (Kinodynamic_ctor problem)) 0 (- 1/2) 0 0 =
     ([], Some \<lparr> total_T = 5 / 2, sigma = - 1, t1 = 2, tv = - 3 / 2, t2 = 2 \<rparr>)"
  by (simp add: Kinodynamic_ctor_def computeMinTime_def sgn_of_def Let_def)

text \<open>
  C8 (as stated, refuted). For \<open>p1 = 0\<close>, \<open>p2 = 100\<close>, \<open>v1 = v2 = 0\<close> with \<open>aMax = 1\<close> and
  \<open>vMax = 1\<close> the outputs \<open>(t1, t2, tv, T)\<close> are not \<open>(1, 1, 98, 100)\<close>.
\<close>

theorem C8_cruise_time_counterexample:
  "map_option (\<lambda>r. (t1 r, t2 r, tv r, total_T r))
     (snd (computeMinTime
        \<lparr> device = \<lparr> configSize = 2, extraConfigSpace_dimension = 1 \<rparr>, aMax = 1, vMax = 1 \<rparr>
        0 100 0 0))
   \<noteq> Some (1, 1, 98, 100)"
proof -
  have "sqrt 400 = 20"
    by (rule real_sqrt_unique) simp_all
  then show ?thesis
    by (simp add: computeMinTime_def sgn_of_def Let_def)
qed

text \<open>
  C8 (amended). For \<open>p1 = 0\<close>, \<open>p2 = 100\<close>, \<open>v1 = v2 = 0\<close> with \<open>aMax = 1\<close> and \<open>vMax = 1\<close>,
  \<open>computeMinTime\<close> produces the three-segment trajectory with \<open>t1 = 1\<close>, \<open>t2 = 1\<close>,
  \<open>tv = 99\<close> and total time \<open>T = 101\<close>, and prints nothing.
\<close>

theorem C8_three_segment_cruise:
  "computeMinTime \<lparr> device = d, aMax = 1, vMax = 1 \<rparr> 0 100 0 0 =
     ([], Some \<lparr> total_T = 101, sigma = 1, t1 = 1, tv = 99, t2 = 1 \<rparr>)"
proof -
  have "sqrt 400 = 20"
    by (rule real_sqrt_unique) simp_all
  then show ?thesis
    by (simp add: computeMinTime_def sgn_of_def Let_def)
qed

text \<open>
  C9. For every problem, the constructed object has \<open>aMax = 0.5\<close> and \<open>vMax = 1\<close>, and
  \<open>computeMinTime\<close> and \<open>fixedTimeTrajectory\<close> called on it return what they return on
  any object with these two bounds, whatever its robot.
\<close>

theorem C9_ctor_fixes_bounds:
  "aMax (snd (Kinodynamic_ctor problem)) = 0.5
   \<and> vMax (snd (Kinodynamic_ctor problem)) = 1
   \<and> computeMinTime (snd (Kinodynamic_ctor problem)) p1 p2 v1 v2
       = computeMinTime \<lparr> device = d, aMax = 0.5, vMax = 1 \<rparr> p1 p2 v1 v2
   \<and> fixedTimeTrajectory (snd (Kinodynamic_ctor problem)) T p1 p2 v1 v2
       = fixedTimeTrajectory \<lparr> device = d, aMax = 0.5, vMax = 1 \<rparr> T p1 p2 v1 v2"
proof -
  let ?k = "snd (Kinodynamic_ctor problem)"
  have a: "aMax ?k = 0.5" and v: "vMax ?k = 1"
    by (simp_all add: Kinodynamic_ctor_def)
  have m: "computeMinTime ?k p1 p2 v1 v2
           = computeMinTime \<lparr> device = d, aMax = 0.5, vMax = 1 \<rparr> p1 p2 v1 v2"
    by (rule computeMinTime_bounds_only) (simp_all add: a v)
  have f: "fixedTimeTrajectory ?k T p1 p2 v1 v2
           = fixedTimeTrajectory \<lparr> device = d, aMax = 0.5, vMax = 1 \<rparr> T p1 p2 v1 v2"
    by (rule fixedTimeTrajectory_bounds_only) (simp add: v)
  from a v m f show ?thesis by blast
qed

section \<open>Properties of the roadmap\<close>

subsection \<open>The set container and the order on distances\<close>

lemma set_set_insert [simp]: "set (set_insert x xs) = insert x (set xs)"
  by (auto simp: set_insert_def set_insort_key)

lemma distinct_set_insert [simp]: "distinct (set_insert x xs) = distinct xs"
  by (simp add: set_insert_def distinct_insort)

lemma set_set_erase [simp]: "set (set_erase x xs) = set xs - {x}"
  by (auto simp: set_erase_def)

lemma distinct_set_erase [simp]: "distinct xs \<Longrightarrow> distinct (set_erase x xs)"
  by (simp add: set_erase_def distinct_removeAll)

lemma set_fold_set_insert [simp]: "set (fold set_insert xs ys) = set xs \<union> set ys"
  by (induction xs arbitrary: ys) auto

lemma distinct_fold_set_insert [simp]: "distinct (fold set_insert xs ys) = distinct ys"
  by (induction xs arbitrary: ys) auto

lemma set_set_replace:
  "set (set_replace old new xs) = (if old \<in> set xs then insert new (set xs - {old}) else set xs)"
  by (simp add: set_replace_def)

lemma count_list_distinct: "distinct xs \<Longrightarrow> x \<in> set xs \<Longrightarrow> count_list xs x = 1"
  by (induction xs) auto

lemma not_less_value_refl [simp]: "\<not> less_value a a"
  by (cases a) simp_all

lemma not_less_value_trans:
  "\<not> less_value a b \<Longrightarrow> \<not> less_value b c \<Longrightarrow> \<not> less_value a c"
  by (cases a; cases b; cases c) simp_all

lemma less_value_asym: "less_value a b \<Longrightarrow> \<not> less_value b a"
  by (cases a; cases b) simp_all

subsection \<open>Nearest-neighbour search\<close>

lemma best_ok_empty: "best_ok rm q {} C (None, Infinity)" "best_ok rm q S {} (None, Infinity)"
  by (simp_all add: best_ok_def)

lemma KDTree_scan_ok:
  assumes "best_ok rm q S {cc} best"
  shows "best_ok rm q (insert x S) {cc} (KDTree_scan rm q cc x best)"
proof -
  from assms consider
      (none) "best = (None, Infinity)" "\<forall>m\<in>S. connectedComponent (node_heap rm m) \<noteq> cc"
    | (some) n where "n \<in> S" "connectedComponent (node_heap rm n) = cc"
        "best = (Some n, Finite (node_distance rm q n))"
        "\<forall>m\<in>S. connectedComponent (node_heap rm m) = cc
              \<longrightarrow> node_distance rm q n \<le> node_distance rm q m"
    unfolding best_ok_def by auto
  then show ?thesis
  proof cases
    case none
    then show ?thesis
      by (simp add: best_ok_def KDTree_scan_def)
  next
    case some
    show ?thesis
    proof (cases "connectedComponent (node_heap rm x) = cc
                  \<and> node_distance rm q x < node_distance rm q n")
      case True
      then have "KDTree_scan rm q cc x best = (Some x, Finite (node_distance rm q x))"
        by (simp add: KDTree_scan_def some(3))
      moreover have "\<forall>m\<in>insert x S. connectedComponent (node_heap rm m) = cc
              \<longrightarrow> node_distance rm q x \<le> node_distance rm q m"
        using True some(4) by force
      ultimately show ?thesis
        using True by (simp add: best_ok_def)
    next
      case False
      then have "KDTree_scan rm q cc x best = best"
        by (auto simp add: KDTree_scan_def some(3) Let_def)
      moreover have "\<forall>m\<in>insert x S. connectedComponent (node_heap rm m) = cc
              \<longrightarrow> node_distance rm q n \<le> node_distance rm q m"
        using False some(4) by force
      ultimately show ?thesis
        unfolding best_ok_def using some(1,2,3) by blast
    qed
  qed
qed

lemma fold_KDTree_scan_ok:
  "best_ok rm q S {cc} best
   \<Longrightarrow> best_ok rm q (S \<union> set xs) {cc} (fold (KDTree_scan rm q cc) xs best)"
proof (induction xs arbitrary: S best)
  case Nil
  then show ?case by simp
next
  case (Cons x xs)
  from Cons.IH [OF KDTree_scan_ok [OF Cons.prems, of x]]
  show ?case by simp
qed

lemma KDTree_search_ok: "best_ok rm q (set (kdTree rm)) {cc} (KDTree_search rm q cc)"
  using fold_KDTree_scan_ok [of rm q "{}" cc "(None, Infinity)" "kdTree rm"]
  by (simp add: KDTree_search_def best_ok_empty)

lemma nearestNode_step_ok:
  assumes "best_ok rm q (set (kdTree rm)) C best"
  shows "best_ok rm q (set (kdTree rm)) (insert c C) (nearestNode_step rm q c best)"
proof -
  let ?S = "set (kdTree rm)"
  from KDTree_search_ok [of rm q c] consider
      (none) "KDTree_search rm q c = (None, Infinity)"
             "\<forall>m\<in>?S. connectedComponent (node_heap rm m) \<noteq> c"
    | (some) n where "n \<in> ?S" "connectedComponent (node_heap rm n) = c"
        "KDTree_search rm q c = (Some n, Finite (node_distance rm q n))"
        "\<forall>m\<in>?S. connectedComponent (node_heap rm m) = c
              \<longrightarrow> node_distance rm q n \<le> node_distance rm q m"
    unfolding best_ok_def by auto
  then show ?thesis
  proof cases
    case none
    then have "nearestNode_step rm q c best = best"
      by (simp add: nearestNode_step_def)
    then show ?thesis
      using assms none(2) unfolding best_ok_def by auto
  next
    case some
    from assms consider
        (bnone) "best = (None, Infinity)"
                "\<forall>m\<in>?S. connectedComponent (node_heap rm m) \<notin> C"
      | (bsome) k where "k \<in> ?S" "connectedComponent (node_heap rm k) \<in> C"
          "best = (Some k, Finite (node_distance rm q k))"
          "\<forall>m\<in>?S. connectedComponent (node_heap rm m) \<in> C
                \<longrightarrow> node_distance rm q k \<le> node_distance rm q m"
      unfolding best_ok_def by auto
    then show ?thesis
    proof cases
      case bnone
      then have "nearestNode_step rm q c best = (Some n, Finite (node_distance rm q n))"
        by (simp add: nearestNode_step_def some(3))
      then show ?thesis
        using some bnone(2) unfolding best_ok_def by auto
    next
      case bsome
      show ?thesis
      proof (cases "node_distance rm q n < node_distance rm q k")
        case True
        then have "nearestNode_step rm q c best = (Some n, Finite (node_distance rm q n))"
          by (simp add: nearestNode_step_def some(3) bsome(3))
        moreover have "\<forall>m\<in>?S. connectedComponent (node_heap rm m) \<in> insert c C
                \<longrightarrow> node_distance rm q n \<le> node_distance rm q m"
          using True some(4) bsome(4) by force
        ultimately show ?thesis
          using some(1,2) unfolding best_ok_def by auto
      next
        case False
        then have "nearestNode_step rm q c best = best"
          by (simp add: nearestNode_step_def some(3) bsome(3))
        moreover have "\<forall>m\<in>?S. connectedComponent (node_heap rm m) \<in> insert c C
                \<longrightarrow> node_distance rm q k \<le> node_distance rm q m"
          using False some(4) bsome(4) by force
        ultimately show ?thesis
          using bsome(1,2,3) unfolding best_ok_def by auto
      qed
    qed
  qed
qed

lemma fold_nearestNode_step_ok:
  "best_ok rm q (set (kdTree rm)) C best
   \<Longrightarrow> best_ok rm q (set (kdTree rm)) (C \<union> set cs) (fold (nearestNode_step rm q) cs best)"
proof (induction cs arbitrary: C best)
  case Nil
  then show ?case by simp
next
  case (Cons c cs)
  from Cons.IH [OF nearestNode_step_ok [OF Cons.prems, of c]]
  show ?case by simp
qed

lemma nearestNode_ok:
  "best_ok rm q (set (kdTree rm)) (set (connectedComponents rm)) (nearestNode rm q)"
  using fold_nearestNode_step_ok [of rm q "{}" "(None, Infinity)" "connectedComponents rm"]
  by (simp add: nearestNode_def best_ok_empty)

lemma nearestNode_step_eq:
  "nearestNode_step rm q c best =
     (if less_value (snd (KDTree_search rm q c)) (snd best) then KDTree_search rm q c else best)"
  by (simp add: nearestNode_step_def split: prod.splits)

lemma fold_nearestNode_step_min:
  "(fold (nearestNode_step rm q) cs best = best
      \<or> (\<exists>c\<in>set cs. fold (nearestNode_step rm q) cs best = KDTree_search rm q c))
   \<and> (\<forall>c\<in>set cs. \<not> less_value (snd (KDTree_search rm q c))
                                (snd (fold (nearestNode_step rm q) cs best)))
   \<and> \<not> less_value (snd best) (snd (fold (nearestNode_step rm q) cs best))"
proof (induction cs arbitrary: best)
  case Nil
  show ?case by simp
next
  case (Cons c cs)
  let ?b = "nearestNode_step rm q c best"
  let ?r = "fold (nearestNode_step rm q) cs ?b"
  note IH = Cons.IH [of ?b]
  have b1: "\<not> less_value (snd (KDTree_search rm q c)) (snd ?b)"
    and b2: "\<not> less_value (snd best) (snd ?b)"
    and b3: "?b = best \<or> ?b = KDTree_search rm q c"
    by (auto simp: nearestNode_step_eq less_value_asym)
  have r: "\<not> less_value (snd ?b) (snd ?r)" using IH by blast
  have "\<not> less_value (snd (KDTree_search rm q c)) (snd ?r)"
    by (rule not_less_value_trans [OF b1 r])
  moreover have "\<not> less_value (snd best) (snd ?r)"
    by (rule not_less_value_trans [OF b2 r])
  moreover have "?r = best \<or> (\<exists>c'\<in>set (c # cs). ?r = KDTree_search rm q c')"
    using IH b3 by auto
  ultimately show ?case using IH by simp
qed

subsection \<open>The operations keep the roadmap consistent\<close>

text \<open>The search explores exactly what is reachable, given enough explorations.\<close>

lemma explore_mono: "set explored \<subseteq> set (explore succs n queue explored)"
  by (induction succs n queue explored rule: explore.induct) auto

lemma explore_sound:
  "set (explore succs n queue explored)
     \<subseteq> set explored \<union> {(c, d). d \<in> set (succs c)}\<^sup>* `` set queue"
proof (induction succs n queue explored rule: explore.induct)
  case (1 succs queue explored)
  show ?case by simp
next
  case (2 succs n explored)
  show ?case by simp
next
  case (3 succs n current queue explored)
  let ?r = "{(c, d). d \<in> set (succs c)}"
  show ?case
  proof (cases "current \<in> set explored")
    case True
    with 3 show ?thesis by auto
  next
    case False
    have "?r\<^sup>* `` set (queue @ succs current) \<subseteq> ?r\<^sup>* `` set (current # queue)"
    proof
      fix y assume "y \<in> ?r\<^sup>* `` set (queue @ succs current)"
      then obtain x where x: "x \<in> set queue \<or> x \<in> set (succs current)"
        and r: "(x, y) \<in> ?r\<^sup>*" by auto
      from x show "y \<in> ?r\<^sup>* `` set (current # queue)"
      proof
        assume "x \<in> set queue" with r show ?thesis by auto
      next
        assume "x \<in> set (succs current)"
        then have "(current, x) \<in> ?r" by simp
        from this r have "(current, y) \<in> ?r\<^sup>*"
          by (rule converse_rtrancl_into_rtrancl)
        then show ?thesis by auto
      qed
    qed
    with 3(2) [OF False] False show ?thesis by auto
  qed
qed

lemma explore_closed:
  assumes "finite U" and "set queue \<subseteq> U" and "set explored \<subseteq> U"
    and "\<forall>x\<in>U. set (succs x) \<subseteq> U"
    and "card (U - set explored) \<le> n"
    and "\<forall>x\<in>set explored. set (succs x) \<subseteq> set explored \<union> set queue"
  shows "set queue \<subseteq> set (explore succs n queue explored)
       \<and> (\<forall>x\<in>set (explore succs n queue explored).
             set (succs x) \<subseteq> set (explore succs n queue explored))"
  using assms
proof (induction succs n queue explored rule: explore.induct)
  case (1 succs queue explored)
  then have "U \<subseteq> set explored" by simp
  with 1 show ?case by auto
next
  case (2 succs n explored)
  then show ?case by auto
next
  case (3 succs n current queue explored)
  show ?case
  proof (cases "current \<in> set explored")
    case True
    have q: "set queue \<subseteq> U" using 3(4) by simp
    have i: "\<forall>x\<in>set explored. set (succs x) \<subseteq> set explored \<union> set queue"
      using 3(8) True by auto
    have "set queue \<subseteq> set (explore succs (Suc n) queue explored)
       \<and> (\<forall>x\<in>set (explore succs (Suc n) queue explored).
             set (succs x) \<subseteq> set (explore succs (Suc n) queue explored))"
      by (rule 3(1) [OF True 3(3) q 3(5,6,7) i])
    moreover have "current \<in> set (explore succs (Suc n) queue explored)"
      using True explore_mono by blast
    ultimately show ?thesis using True by simp
  next
    case False
    have cu: "current \<in> U" using 3(4) by simp
    have "card (U - set (explored @ [current])) < card (U - set explored)"
      using cu False 3(3) by (intro psubset_card_mono) auto
    with 3(7) have c: "card (U - set (explored @ [current])) \<le> n" by simp
    have s: "set (queue @ succs current) \<subseteq> U" using 3(4,6) cu by auto
    have e: "set (explored @ [current]) \<subseteq> U" using 3(5) cu by simp
    have i: "\<forall>x\<in>set (explored @ [current]).
               set (succs x) \<subseteq> set (explored @ [current]) \<union> set (queue @ succs current)"
      using 3(8) by auto
    from 3(2) [OF False 3(3) s e 3(6) c i]
    have "set (queue @ succs current)
            \<subseteq> set (explore succs n (queue @ succs current) (explored @ [current]))
       \<and> (\<forall>x\<in>set (explore succs n (queue @ succs current) (explored @ [current])).
             set (succs x)
               \<subseteq> set (explore succs n (queue @ succs current) (explored @ [current])))" .
    moreover have "current \<in> set (explore succs n (queue @ succs current) (explored @ [current]))"
      using explore_mono [of "explored @ [current]"] by auto
    ultimately show ?thesis using False by simp
  qed
qed

lemma explore_complete:
  assumes "finite U" and "x \<in> U" and "\<forall>x\<in>U. set (succs x) \<subseteq> U" and "card U \<le> n"
  shows "set (explore succs n [x] []) = {(c, d). d \<in> set (succs c)}\<^sup>* `` {x}"
proof
  show "set (explore succs n [x] []) \<subseteq> {(c, d). d \<in> set (succs c)}\<^sup>* `` {x}"
    using explore_sound [of succs n "[x]" "[]"] by simp
next
  let ?E = "set (explore succs n [x] [])"
  from explore_closed [OF assms(1), of "[x]" "[]" succs n] assms
  have x: "x \<in> ?E" and cl: "\<forall>y\<in>?E. set (succs y) \<subseteq> ?E" by auto
  show "{(c, d). d \<in> set (succs c)}\<^sup>* `` {x} \<subseteq> ?E"
  proof
    fix y assume "y \<in> {(c, d). d \<in> set (succs c)}\<^sup>* `` {x}"
    then have "(x, y) \<in> {(c, d). d \<in> set (succs c)}\<^sup>*" by simp
    then show "y \<in> ?E"
    proof (induction rule: rtrancl_induct)
      case base
      show ?case by (rule x)
    next
      case (step y z)
      with cl show ?case by auto
    qed
  qed
qed

lemma canReach_refl: "canReach rm c c"
  using explore_mono [of "[c]" "\<lambda>c. reachableTo (cc_heap rm c)" "next_cc rm"
                         "reachableTo (cc_heap rm c)"]
  by (simp add: canReach_def downward_closure_def)

lemma downward_closure_links:
  assumes "roadmap_inv rm" and "c \<in> set (connectedComponents rm)"
  shows "set (downward_closure rm c) = (links rm)\<^sup>* `` {c}"
proof -
  let ?U = "set (connectedComponents rm)"
  have "?U \<subseteq> {..<next_cc rm}"
    using assms(1) unfolding roadmap_inv_def by auto
  then have "card ?U \<le> card {..<next_cc rm}"
    by (intro card_mono) simp_all
  then have n: "card ?U \<le> Suc (next_cc rm)" by simp
  have cl: "\<forall>x\<in>?U. set (reachableTo (cc_heap rm x)) \<subseteq> ?U"
    using assms(1) unfolding roadmap_inv_def by blast
  from explore_complete [of ?U c "\<lambda>c. reachableTo (cc_heap rm c)", OF _ assms(2) cl n]
  show ?thesis
    by (simp add: downward_closure_def links_def)
qed

lemma canReach_iff_links:
  assumes "roadmap_inv rm" and "c \<in> set (connectedComponents rm)"
  shows "canReach rm c d \<longleftrightarrow> (c, d) \<in> (links rm)\<^sup>*"
  using downward_closure_links [OF assms] by (auto simp: canReach_def)

lemma links_stay_in_roadmap:
  assumes "roadmap_inv rm" and "c \<in> set (connectedComponents rm)"
    and "(c, d) \<in> (links rm)\<^sup>*"
  shows "d \<in> set (connectedComponents rm)"
  using assms(3,2)
proof (induction rule: rtrancl_induct)
  case base
  then show ?case .
next
  case (step y z)
  then have "y \<in> set (connectedComponents rm)" by simp
  with assms(1) step(2) show ?case
    unfolding roadmap_inv_def links_def by auto
qed

lemma roadmap_inv_create: "roadmap_inv (Roadmap_create d)"
  by (simp add: roadmap_inv_def Roadmap_create_def)

lemma roadmap_inv_clear: "roadmap_inv rm \<Longrightarrow> roadmap_inv (clear rm)"
  by (simp add: roadmap_inv_def clear_def)

lemma addNode_cases:
  "addNode rm q =
     (if nodes rm \<noteq> []
      then (case fst (nearestNode rm q) of
              None \<Rightarrow> Inl NullDereference
            | Some nearest \<Rightarrow>
                if configuration (node_heap rm nearest) = q then Inr (nearest, rm)
                else Inr (addNode_fresh rm q))
      else Inr (addNode_fresh rm q))"
  by (simp add: addNode_def addNode_fresh_def Node_new_def addConnectedComponent_def
      ConnectedComponent_addNode_def KDTree_addNode_def Let_def split: option.splits)

lemma roadmap_inv_addNode_fresh:
  assumes "roadmap_inv rm"
  shows "roadmap_inv (snd (addNode_fresh rm q))"
proof -
  have fresh_cc: "next_cc rm \<notin> set (connectedComponents rm)"
    using assms unfolding roadmap_inv_def by blast
  have fresh_node: "next_node rm \<notin> set (nodes rm)"
    using assms unfolding roadmap_inv_def by blast
  have other: "\<forall>n\<in>set (nodes rm). connectedComponent (node_heap rm n) \<noteq> next_cc rm"
    using assms fresh_cc unfolding roadmap_inv_def by metis
  show ?thesis
    using assms fresh_cc fresh_node other unfolding roadmap_inv_def addNode_fresh_def
    by (auto simp: less_Suc_eq)
qed

lemma roadmap_inv_addNode:
  assumes "roadmap_inv rm" and "addNode rm q = Inr (n, rm')"
  shows "roadmap_inv rm'"
  using assms roadmap_inv_addNode_fresh [OF assms(1), of q]
  by (auto simp: addNode_cases split: if_splits option.splits)

lemma addNode_in_cases:
  "addNode_in rm q cc =
     (if nodes rm \<noteq> []
      then (if cc_nodes (cc_heap rm cc) = [] then Inl AssertionFailure
            else case fst (KDTree_search rm q cc) of
              None \<Rightarrow> Inl NullDereference
            | Some nearest \<Rightarrow>
                if configuration (node_heap rm nearest) = q then Inr (nearest, rm)
                else Inr (addNode_in_fresh rm q cc))
      else Inr (addNode_in_fresh rm q cc))"
  by (simp add: addNode_in_def addNode_in_fresh_def Node_new_in_def nearestNode_in_def
      ConnectedComponent_addNode_def KDTree_addNode_def Let_def
      split: option.splits prod.splits)

lemma roadmap_inv_addNode_in_fresh:
  assumes "roadmap_inv rm" and "cc \<in> set (connectedComponents rm)"
  shows "roadmap_inv (snd (addNode_in_fresh rm q cc))"
proof -
  have fresh_node: "next_node rm \<notin> set (nodes rm)"
    using assms unfolding roadmap_inv_def by blast
  show ?thesis
    using assms fresh_node unfolding roadmap_inv_def addNode_in_fresh_def
    by (auto simp: less_Suc_eq)
qed

lemma roadmap_inv_addNode_in:
  assumes "roadmap_inv rm" and "cc \<in> set (connectedComponents rm)"
    and "addNode_in rm q cc = Inr (n, rm')"
  shows "roadmap_inv rm'"
  using assms roadmap_inv_addNode_in_fresh [OF assms(1,2), of q]
  by (auto simp: addNode_in_cases split: if_splits option.splits)

lemma addEdges_fields:
  "connectedComponents (addEdges rv rm a b p) = connectedComponents rm"
  "nodes (addEdges rv rm a b p) = nodes rm"
  "kdTree (addEdges rv rm a b p) = kdTree rm"
  "cc_heap (addEdges rv rm a b p) = cc_heap rm"
  "next_node (addEdges rv rm a b p) = next_node rm"
  "next_cc (addEdges rv rm a b p) = next_cc rm"
  "distance (addEdges rv rm a b p) = distance rm"
  "connectedComponent (node_heap (addEdges rv rm a b p) n) = connectedComponent (node_heap rm n)"
  "configuration (node_heap (addEdges rv rm a b p) n) = configuration (node_heap rm n)"
  by (simp_all add: addEdges_def Edge_new_def Node_addOutEdge_def Node_addInEdge_def Let_def)

lemma roadmap_inv_addEdges:
  "roadmap_inv rm \<Longrightarrow> roadmap_inv (addEdges rv rm a b p)"
  by (simp add: roadmap_inv_def addEdges_fields)

text \<open>
  The second equation of \<open>merge\<close> is used in the form \<open>merge_Cons\<close> below.
\<close>

declare merge.simps(2) [simp del]

lemma merge_Cons:
  "merge rm cc1 (c # cs) =
     (if c \<noteq> cc1
      then (if count_list (connectedComponents rm) c = 1
            then merge (merge_step rm cc1 c) cc1 cs else Inl AssertionFailure)
      else merge rm cc1 cs)"
  by (simp add: merge.simps(2) merge_step_def ConnectedComponent_merge_def Let_def)

lemma merge_step_fields:
  "connectedComponents (merge_step rm cc1 c) = set_erase c (connectedComponents rm)"
  "nodes (merge_step rm cc1 c) = nodes rm"
  "edges (merge_step rm cc1 c) = edges rm"
  "kdTree (merge_step rm cc1 c) = kdTree rm"
  "edge_heap (merge_step rm cc1 c) = edge_heap rm"
  "distance (merge_step rm cc1 c) = distance rm"
  "initNode (merge_step rm cc1 c) = initNode rm"
  "goalNodes (merge_step rm cc1 c) = goalNodes rm"
  "next_node (merge_step rm cc1 c) = next_node rm"
  "next_edge (merge_step rm cc1 c) = next_edge rm"
  "next_cc (merge_step rm cc1 c) = next_cc rm"
  "configuration (node_heap (merge_step rm cc1 c) n) = configuration (node_heap rm n)"
  "outEdges (node_heap (merge_step rm cc1 c) n) = outEdges (node_heap rm n)"
  "inEdges (node_heap (merge_step rm cc1 c) n) = inEdges (node_heap rm n)"
  by (simp_all add: merge_step_def ConnectedComponent_merge_def Let_def)

lemma merge_step_connectedComponent:
  "connectedComponent (node_heap (merge_step rm cc1 c) n) =
     (if n \<in> set (cc_nodes (cc_heap rm c)) then cc1
      else connectedComponent (node_heap rm n))"
  by (simp add: merge_step_def ConnectedComponent_merge_def Let_def)

lemma merge_step_cc_nodes:
  "cc_nodes (cc_heap (merge_step rm cc1 c) x) =
     (if x = cc1 then cc_nodes (cc_heap rm cc1) @ cc_nodes (cc_heap rm c)
      else if x = c then [] else cc_nodes (cc_heap rm x))"
  by (simp add: merge_step_def ConnectedComponent_merge_def Let_def)

lemma merge_step_reachable_subset:
  assumes "set (reachableTo (cc_heap rm c)) \<subseteq> S" "set (reachableTo (cc_heap rm x)) \<subseteq> S"
    "set (reachableTo (cc_heap rm cc1)) \<subseteq> S"
    "set (reachableFrom (cc_heap rm c)) \<subseteq> S" "set (reachableFrom (cc_heap rm x)) \<subseteq> S"
    "set (reachableFrom (cc_heap rm cc1)) \<subseteq> S"
    "cc1 \<in> S" "x \<noteq> c" "c \<noteq> cc1"
  shows "set (reachableTo (cc_heap (merge_step rm cc1 c) x)) \<subseteq> S - {c}"
    and "set (reachableFrom (cc_heap (merge_step rm cc1 c) x)) \<subseteq> S - {c}"
  using assms
  by (auto simp: merge_step_def ConnectedComponent_merge_def Let_def set_set_replace
      split: if_splits)

lemma roadmap_inv_merge_step:
  assumes inv: "roadmap_inv rm" and cc1: "cc1 \<in> set (connectedComponents rm)"
    and c: "c \<in> set (connectedComponents rm)" and ne: "c \<noteq> cc1"
  shows "roadmap_inv (merge_step rm cc1 c)"
proof -
  let ?rm = "merge_step rm cc1 c"
  have n: "\<forall>n\<in>set (nodes ?rm). n < next_node ?rm
          \<and> connectedComponent (node_heap ?rm n) \<in> set (connectedComponents ?rm)
          \<and> n \<in> set (cc_nodes (cc_heap ?rm (connectedComponent (node_heap ?rm n))))"
  proof
    fix n assume "n \<in> set (nodes ?rm)"
    then have m: "n \<in> set (nodes rm)" by (simp add: merge_step_fields)
    with inv have a: "n < next_node rm"
      and b: "connectedComponent (node_heap rm n) \<in> set (connectedComponents rm)"
      and d: "n \<in> set (cc_nodes (cc_heap rm (connectedComponent (node_heap rm n))))"
      unfolding roadmap_inv_def by blast+
    show "n < next_node ?rm
          \<and> connectedComponent (node_heap ?rm n) \<in> set (connectedComponents ?rm)
          \<and> n \<in> set (cc_nodes (cc_heap ?rm (connectedComponent (node_heap ?rm n))))"
      using a b d cc1 ne
      by (auto simp: merge_step_fields merge_step_connectedComponent merge_step_cc_nodes)
  qed
  have r: "\<forall>x\<in>set (connectedComponents ?rm). x < next_cc ?rm
            \<and> set (reachableTo (cc_heap ?rm x)) \<subseteq> set (connectedComponents ?rm)
            \<and> set (reachableFrom (cc_heap ?rm x)) \<subseteq> set (connectedComponents ?rm)"
  proof
    fix x assume "x \<in> set (connectedComponents ?rm)"
    then have x: "x \<in> set (connectedComponents rm)" "x \<noteq> c"
      by (simp_all add: merge_step_fields)
    from inv x(1) c cc1 have sub:
      "set (reachableTo (cc_heap rm c)) \<subseteq> set (connectedComponents rm)"
      "set (reachableTo (cc_heap rm x)) \<subseteq> set (connectedComponents rm)"
      "set (reachableTo (cc_heap rm cc1)) \<subseteq> set (connectedComponents rm)"
      "set (reachableFrom (cc_heap rm c)) \<subseteq> set (connectedComponents rm)"
      "set (reachableFrom (cc_heap rm x)) \<subseteq> set (connectedComponents rm)"
      "set (reachableFrom (cc_heap rm cc1)) \<subseteq> set (connectedComponents rm)"
      and lt: "x < next_cc rm"
      unfolding roadmap_inv_def by blast+
    from merge_step_reachable_subset [OF sub cc1 x(2) ne] lt
    show "x < next_cc ?rm
            \<and> set (reachableTo (cc_heap ?rm x)) \<subseteq> set (connectedComponents ?rm)
            \<and> set (reachableFrom (cc_heap ?rm x)) \<subseteq> set (connectedComponents ?rm)"
      by (simp add: merge_step_fields)
  qed
  have k: "set (kdTree ?rm) = set (nodes ?rm)" and dist: "distinct (connectedComponents ?rm)"
    using inv unfolding roadmap_inv_def by (simp_all add: merge_step_fields)
  from n r k dist show ?thesis
    unfolding roadmap_inv_def by blast
qed

lemma merge_total:
  assumes "roadmap_inv rm" and "cc1 \<in> set (connectedComponents rm)"
    and "distinct cs" and "set cs \<subseteq> set (connectedComponents rm)"
  shows "\<exists>rm'. merge rm cc1 cs = Inr rm' \<and> roadmap_inv rm'"
  using assms
proof (induction cs arbitrary: rm)
  case Nil
  then show ?case by simp
next
  case (Cons c cs)
  show ?case
  proof (cases "c = cc1")
    case True
    with Cons.IH [of rm] Cons.prems show ?thesis
      by (simp add: merge_Cons)
  next
    case False
    have c: "c \<in> set (connectedComponents rm)" using Cons.prems by simp
    have cnt: "count_list (connectedComponents rm) c = 1"
      using Cons.prems(1) c by (simp add: count_list_distinct roadmap_inv_def)
    have inv': "roadmap_inv (merge_step rm cc1 c)"
      by (rule roadmap_inv_merge_step [OF Cons.prems(1,2) c False])
    have "cc1 \<in> set (connectedComponents (merge_step rm cc1 c))"
      using Cons.prems(2) False by (simp add: merge_step_fields)
    moreover have "set cs \<subseteq> set (connectedComponents (merge_step rm cc1 c))"
      using Cons.prems(3,4) by (auto simp: merge_step_fields)
    moreover have "distinct cs" using Cons.prems(3) by simp
    ultimately obtain rm' where
      "merge (merge_step rm cc1 c) cc1 cs = Inr rm'" "roadmap_inv rm'"
      using Cons.IH [OF inv'] by blast
    then show ?thesis
      using False cnt by (simp add: merge_Cons)
  qed
qed

lemma merge_connectedComponents:
  "merge rm cc1 cs = Inr rm' \<Longrightarrow>
   connectedComponents rm' = filter (\<lambda>c. c = cc1 \<or> c \<notin> set cs) (connectedComponents rm)"
proof (induction cs arbitrary: rm)
  case Nil
  then show ?case by simp
next
  case (Cons c cs)
  show ?case
  proof (cases "c = cc1")
    case True
    with Cons show ?thesis
      by (auto simp: merge_Cons intro: filter_cong)
  next
    case False
    with Cons.prems have "merge (merge_step rm cc1 c) cc1 cs = Inr rm'"
      by (simp add: merge_Cons split: if_splits)
    from Cons.IH [OF this] False show ?thesis
      by (auto simp: merge_step_fields set_erase_def removeAll_filter_not_eq intro: filter_cong)
  qed
qed

lemma merge_keeps_root_nodes:
  "merge rm cc1 cs = Inr rm' \<Longrightarrow> connectedComponent (node_heap rm n) = cc1
   \<Longrightarrow> n \<in> set (cc_nodes (cc_heap rm cc1))
   \<Longrightarrow> connectedComponent (node_heap rm' n) = cc1 \<and> n \<in> set (cc_nodes (cc_heap rm' cc1))"
proof (induction cs arbitrary: rm)
  case Nil
  then show ?case by simp
next
  case (Cons c cs)
  show ?case
  proof (cases "c = cc1")
    case True
    with Cons show ?thesis by (simp add: merge_Cons)
  next
    case False
    with Cons.prems(1) have m: "merge (merge_step rm cc1 c) cc1 cs = Inr rm'"
      by (simp add: merge_Cons split: if_splits)
    show ?thesis
      by (rule Cons.IH [OF m])
         (simp_all add: merge_step_connectedComponent merge_step_cc_nodes Cons.prems(2,3))
  qed
qed

lemma merge_repoints_nodes:
  "merge rm cc1 cs = Inr rm' \<Longrightarrow> c \<in> set cs \<Longrightarrow> c \<noteq> cc1
   \<Longrightarrow> n \<in> set (cc_nodes (cc_heap rm c))
   \<Longrightarrow> connectedComponent (node_heap rm' n) = cc1 \<and> n \<in> set (cc_nodes (cc_heap rm' cc1))"
proof (induction cs arbitrary: rm)
  case Nil
  then show ?case by simp
next
  case (Cons x cs)
  show ?case
  proof (cases "x = cc1")
    case True
    with Cons.prems have "merge rm cc1 cs = Inr rm'" "c \<in> set cs"
      by (auto simp: merge_Cons)
    from Cons.IH [OF this Cons.prems(3,4)] show ?thesis .
  next
    case False
    with Cons.prems(1) have m: "merge (merge_step rm cc1 x) cc1 cs = Inr rm'"
      by (simp add: merge_Cons split: if_splits)
    show ?thesis
    proof (cases "c = x")
      case True
      have "connectedComponent (node_heap (merge_step rm cc1 x) n) = cc1"
        and "n \<in> set (cc_nodes (cc_heap (merge_step rm cc1 x) cc1))"
        using True Cons.prems(4)
        by (simp_all add: merge_step_connectedComponent merge_step_cc_nodes)
      from merge_keeps_root_nodes [OF m this] show ?thesis .
    next
      case ne: False
      with Cons.prems(2) have "c \<in> set cs" by simp
      moreover have "n \<in> set (cc_nodes (cc_heap (merge_step rm cc1 x) c))"
        using ne Cons.prems(3,4) by (simp add: merge_step_cc_nodes)
      ultimately show ?thesis
        using Cons.IH [OF m] Cons.prems(3) by blast
    qed
  qed
qed

lemma untouched_by_connect_refl: "untouched_by_connect rm rm"
  by (simp add: untouched_by_connect_def)

lemma untouched_by_connect_trans:
  "untouched_by_connect rm rm1 \<Longrightarrow> untouched_by_connect rm1 rm2 \<Longrightarrow> untouched_by_connect rm rm2"
  by (simp add: untouched_by_connect_def)

lemma untouched_by_merge_step: "untouched_by_connect rm (merge_step rm cc1 c)"
  by (simp add: untouched_by_connect_def merge_step_fields)

lemma untouched_by_merge:
  "merge rm cc1 cs = Inr rm' \<Longrightarrow> untouched_by_connect rm rm'"
proof (induction cs arbitrary: rm)
  case Nil
  then show ?case by (simp add: untouched_by_connect_refl)
next
  case (Cons c cs)
  show ?case
  proof (cases "c = cc1")
    case True
    with Cons show ?thesis by (simp add: merge_Cons)
  next
    case False
    with Cons.prems have "merge (merge_step rm cc1 c) cc1 cs = Inr rm'"
      by (simp add: merge_Cons split: if_splits)
    from Cons.IH [OF this] show ?thesis
      by (rule untouched_by_connect_trans [OF untouched_by_merge_step])
  qed
qed

lemma connect_cases:
  "connect rm cc1 cc2 =
     (if canReach rm cc1 cc2 then Inr rm
      else if canReach rm cc2 cc1 then merge rm cc1 (snd (canReach_collect rm cc2 cc1))
      else Inr (connect_insert rm cc1 cc2))"
  by (simp add: connect_def connect_insert_def canReach_collect_def Let_def)

lemma untouched_by_connect:
  "connect rm cc1 cc2 = Inr rm' \<Longrightarrow> untouched_by_connect rm rm'"
  by (auto simp: connect_cases untouched_by_merge untouched_by_connect_refl split: if_splits)
     (simp add: untouched_by_connect_def connect_insert_def)

lemma roadmap_inv_connect_insert:
  assumes "roadmap_inv rm" "cc1 \<in> set (connectedComponents rm)"
    "cc2 \<in> set (connectedComponents rm)"
  shows "roadmap_inv (connect_insert rm cc1 cc2)"
  using assms unfolding roadmap_inv_def connect_insert_def
  by auto

lemma set_canReach_collect:
  "set (snd (canReach_collect rm cc2 cc1)) = {c. canReach rm cc2 c \<and> canReach rm c cc1}"
  by (auto simp: canReach_collect_def canReach_def)

lemma canReach_collect_links:
  assumes "roadmap_inv rm" and "cc2 \<in> set (connectedComponents rm)"
  shows "set (snd (canReach_collect rm cc2 cc1)) =
           {c. (cc2, c) \<in> (links rm)\<^sup>* \<and> (c, cc1) \<in> (links rm)\<^sup>*}"
proof -
  have "canReach rm cc2 c \<and> canReach rm c cc1
          \<longleftrightarrow> (cc2, c) \<in> (links rm)\<^sup>* \<and> (c, cc1) \<in> (links rm)\<^sup>*" for c
  proof (cases "(cc2, c) \<in> (links rm)\<^sup>*")
    case True
    then have "c \<in> set (connectedComponents rm)"
      by (rule links_stay_in_roadmap [OF assms])
    with True assms show ?thesis
      by (simp add: canReach_iff_links)
  next
    case False
    with assms show ?thesis by (simp add: canReach_iff_links)
  qed
  then show ?thesis by (simp add: set_canReach_collect)
qed

lemma canReach_collect_subset:
  assumes "roadmap_inv rm" "cc2 \<in> set (connectedComponents rm)"
  shows "set (snd (canReach_collect rm cc2 cc1)) \<subseteq> set (connectedComponents rm)"
    and "distinct (snd (canReach_collect rm cc2 cc1))"
proof -
  show "set (snd (canReach_collect rm cc2 cc1)) \<subseteq> set (connectedComponents rm)"
    using links_stay_in_roadmap [OF assms]
    by (auto simp: canReach_collect_links [OF assms])
  show "distinct (snd (canReach_collect rm cc2 cc1))"
    by (simp add: canReach_collect_def)
qed

lemma connect_total:
  assumes "roadmap_inv rm" "cc1 \<in> set (connectedComponents rm)"
    "cc2 \<in> set (connectedComponents rm)"
  shows "\<exists>rm'. connect rm cc1 cc2 = Inr rm' \<and> roadmap_inv rm'"
proof (cases "canReach rm cc1 cc2")
  case True
  then show ?thesis using assms(1) by (simp add: connect_cases)
next
  case False
  show ?thesis
  proof (cases "canReach rm cc2 cc1")
    case True
    from merge_total [OF assms(1,2) canReach_collect_subset(2,1) [OF assms(1,3)]]
    show ?thesis using True False by (simp add: connect_cases)
  next
    case no: False
    from roadmap_inv_connect_insert [OF assms] show ?thesis
      using no False by (simp add: connect_cases)
  qed
qed

lemma connect_same_component: "connect rm c c = Inr rm"
  by (simp add: connect_cases canReach_refl)

lemma add_one_edge_fields:
  "connectedComponents (add_one_edge rm a b p) = connectedComponents rm"
  "nodes (add_one_edge rm a b p) = nodes rm"
  "kdTree (add_one_edge rm a b p) = kdTree rm"
  "cc_heap (add_one_edge rm a b p) = cc_heap rm"
  "next_node (add_one_edge rm a b p) = next_node rm"
  "next_cc (add_one_edge rm a b p) = next_cc rm"
  "next_edge (add_one_edge rm a b p) = Suc (next_edge rm)"
  "distance (add_one_edge rm a b p) = distance rm"
  "edges (add_one_edge rm a b p) = edges rm @ [next_edge rm]"
  "connectedComponent (node_heap (add_one_edge rm a b p) n) = connectedComponent (node_heap rm n)"
  "configuration (node_heap (add_one_edge rm a b p) n) = configuration (node_heap rm n)"
  by (simp_all add: add_one_edge_def Edge_new_def Node_addOutEdge_def Node_addInEdge_def Let_def)

lemma add_one_edge_edge_heap:
  "edge_heap (add_one_edge rm x y p) =
     (edge_heap rm)(next_edge rm \<mapsto> \<lparr> edge_from = x, edge_to = y, edge_path = p \<rparr>)"
  by (simp add: add_one_edge_def Edge_new_def Node_addOutEdge_def Node_addInEdge_def Let_def)

lemma add_one_edge_untouched:
  assumes "untouched_by_connect r r'"
  shows "untouched_by_connect (add_one_edge r x y p) (add_one_edge r' x y p)"
  using assms
  by (simp add: untouched_by_connect_def add_one_edge_def Edge_new_def Node_addOutEdge_def
      Node_addInEdge_def Let_def)

lemma addEdge_cases:
  "addEdge rm n1 n2 p =
     (case connect (add_one_edge rm n1 n2 p) (connectedComponent (node_heap rm n1))
             (connectedComponent (node_heap rm n2)) of
        Inl e \<Rightarrow> Inl e
      | Inr rm5 \<Rightarrow> Inr (next_edge rm, rm5))"
  by (simp add: addEdge_def add_one_edge_def Edge_new_def Node_addOutEdge_def
      Node_addInEdge_def Let_def)

lemma Node_edge_updates_commute:
  "n\<lparr> inEdges := x, outEdges := y \<rparr> = n\<lparr> outEdges := y, inEdges := x \<rparr>"
  by (cases n) simp

lemma addEdges_two_edges:
  "addEdges rv rm a b p = add_one_edge (add_one_edge rm a b p) b a (rv p)"
proof (cases "a = b")
  case True
  then show ?thesis
    by (simp add: addEdges_def add_one_edge_def Edge_new_def Node_addOutEdge_def
        Node_addInEdge_def Let_def Node_edge_updates_commute)
next
  case False
  then show ?thesis
    by (simp add: addEdges_def add_one_edge_def Edge_new_def Node_addOutEdge_def
        Node_addInEdge_def Let_def fun_upd_twist)
qed

lemma roadmap_inv_add_one_edge:
  "roadmap_inv rm \<Longrightarrow> roadmap_inv (add_one_edge rm a b p)"
  by (simp add: roadmap_inv_def add_one_edge_fields)

lemma addEdge_total:
  assumes "roadmap_inv rm" "n1 \<in> set (nodes rm)" "n2 \<in> set (nodes rm)"
  shows "\<exists>rm'. addEdge rm n1 n2 p = Inr (next_edge rm, rm') \<and> roadmap_inv rm'"
proof -
  have "connectedComponent (node_heap rm n1) \<in> set (connectedComponents rm)"
       "connectedComponent (node_heap rm n2) \<in> set (connectedComponents rm)"
    using assms unfolding roadmap_inv_def by blast+
  then have "\<exists>rm'. connect (add_one_edge rm n1 n2 p) (connectedComponent (node_heap rm n1))
             (connectedComponent (node_heap rm n2)) = Inr rm' \<and> roadmap_inv rm'"
    by (intro connect_total roadmap_inv_add_one_edge assms(1))
       (simp_all add: add_one_edge_fields)
  then show ?thesis
    by (auto simp: addEdge_cases)
qed

lemma reachable_inv: "reachable rm \<Longrightarrow> roadmap_inv rm"
proof (induction rule: reachable.induct)
  case (reach_create d)
  show ?case by (rule roadmap_inv_create)
next
  case (reach_clear rm)
  then show ?case by (simp add: roadmap_inv_clear)
next
  case (reach_addNode rm q n rm')
  then show ?case by (blast intro: roadmap_inv_addNode)
next
  case (reach_addNode_in rm cc q n rm')
  then show ?case by (blast intro: roadmap_inv_addNode_in)
next
  case (reach_addEdge rm n1 n2 p e rm')
  from addEdge_total [OF reach_addEdge.IH reach_addEdge.hyps(2,3), of p] reach_addEdge.hyps(4)
  show ?case by auto
next
  case (reach_addEdges rm n1 n2 rv p)
  then show ?case by (simp add: roadmap_inv_addEdges)
next
  case (reach_addNodeAndEdges rm n1 rv q p n rm')
  have c: "connectedComponent (node_heap rm n1) \<in> set (connectedComponents rm)"
    using reach_addNodeAndEdges.IH reach_addNodeAndEdges.hyps(2)
    unfolding roadmap_inv_def by blast
  from reach_addNodeAndEdges.hyps(3) obtain rm1 where
    a: "addNode_in rm q (connectedComponent (node_heap rm n1)) = Inr (n, rm1)"
    and r: "rm' = addEdges rv rm1 n1 n p"
    by (auto simp: addNodeAndEdges_def split: sum.splits)
  from roadmap_inv_addNode_in [OF reach_addNodeAndEdges.IH c a] r show ?case
    by (simp add: roadmap_inv_addEdges)
next
  case (reach_addGoalNode rm q rm')
  then obtain n rm1 where a: "addNode rm q = Inr (n, rm1)"
    and r: "rm' = rm1\<lparr> goalNodes := goalNodes rm1 @ [n] \<rparr>"
    by (auto simp: addGoalNode_def split: sum.splits)
  from roadmap_inv_addNode [OF reach_addGoalNode.IH a] r show ?case
    by (simp add: roadmap_inv_def)
qed

subsection \<open>The graph of components stays acyclic\<close>

text \<open>
  A path either avoids a given vertex, or starts or ends there, or passes through it.
\<close>

lemma trancl_avoiding:
  assumes "(x, y) \<in> r\<^sup>+"
  shows "(x, y) \<in> (r \<inter> {(u, v). u \<noteq> t \<and> v \<noteq> t})\<^sup>+
         \<or> x = t \<or> y = t \<or> ((x, t) \<in> r\<^sup>+ \<and> (t, y) \<in> r\<^sup>+)"
  using assms
proof (induction rule: trancl_induct)
  case (base y)
  then show ?case by auto
next
  case (step y z)
  let ?q = "r \<inter> {(u, v). u \<noteq> t \<and> v \<noteq> t}"
  show ?case
  proof (cases "x = t \<or> z = t")
    case True
    then show ?thesis by blast
  next
    case False
    show ?thesis
    proof (cases "y = t")
      case True
      with step have "(x, t) \<in> r\<^sup>+" "(t, z) \<in> r\<^sup>+" by auto
      then show ?thesis by blast
    next
      case yt: False
      from step.IH False yt consider
          (a) "(x, y) \<in> ?q\<^sup>+" | (b) "(x, t) \<in> r\<^sup>+" "(t, y) \<in> r\<^sup>+"
        by blast
      then show ?thesis
      proof cases
        case a
        have "(y, z) \<in> ?q" using step(2) yt False by simp
        with a have "(x, z) \<in> ?q\<^sup>+" by (rule trancl_into_trancl)
        then show ?thesis by blast
      next
        case b
        from b(2) step(2) have "(t, z) \<in> r\<^sup>+" by (rule trancl_into_trancl)
        with b(1) show ?thesis by blast
      qed
    qed
  qed
qed

text \<open>
  Contracting, in an acyclic graph, all vertices that lie on a path from \<open>s\<close> to \<open>t\<close> into
  \<open>t\<close> leaves the graph acyclic.
\<close>

lemma contraction_acyclic:
  fixes L :: "(nat \<times> nat) set"
  assumes ac: "acyclic L" and st: "(s, t) \<in> L\<^sup>*"
    and R: "R = {c. (s, c) \<in> L\<^sup>* \<and> (c, t) \<in> L\<^sup>*}"
    and L': "L' = (\<lambda>(a, b). (if a \<in> R then t else a, if b \<in> R then t else b)) ` L - {(t, t)}"
  shows "acyclic L'"
proof -
  let ?W = "{y. (s, y) \<in> L\<^sup>* \<and> (y, t) \<notin> L\<^sup>*}"
  have edge: "\<exists>a b. (a, b) \<in> L \<and> u = (if a \<in> R then t else a) \<and> v = (if b \<in> R then t else b)
                \<and> (u, v) \<noteq> (t, t)"
    if "(u, v) \<in> L'" for u v
  proof -
    from that obtain e where e: "e \<in> L"
      "(u, v) = (\<lambda>(a, b). (if a \<in> R then t else a, if b \<in> R then t else b)) e"
      and n: "(u, v) \<noteq> (t, t)"
      unfolding L' by blast
    obtain a b where "e = (a, b)" by (cases e)
    with e n show ?thesis by auto
  qed
  have from_t: "v \<in> ?W" if "(t, v) \<in> L'" for v
  proof -
    from edge [OF that] obtain a b where ab: "(a, b) \<in> L"
      "t = (if a \<in> R then t else a)" "v = (if b \<in> R then t else b)" "v \<noteq> t"
      by auto
    from ab(3,4) have b: "b \<notin> R" "v = b" by (auto split: if_splits)
    have "(s, a) \<in> L\<^sup>*"
    proof (cases "a \<in> R")
      case True then show ?thesis by (simp add: R)
    next
      case False
      with ab(2) have "a = t" by simp
      with st show ?thesis by simp
    qed
    from this ab(1) have sb: "(s, b) \<in> L\<^sup>*" by (rule rtrancl_into_rtrancl)
    with b(1) have "(b, t) \<notin> L\<^sup>*" by (simp add: R)
    with sb b(2) show ?thesis by simp
  qed
  have in_W: "v \<in> ?W" if "u \<in> ?W" "(u, v) \<in> L'" for u v
  proof -
    from that(1) have u: "(s, u) \<in> L\<^sup>*" "(u, t) \<notin> L\<^sup>*" by simp_all
    then have unr: "u \<notin> R" "u \<noteq> t" by (auto simp: R)
    from edge [OF that(2)] obtain a b where ab: "(a, b) \<in> L"
      "u = (if a \<in> R then t else a)" "v = (if b \<in> R then t else b)"
      by auto
    from ab(2) unr have a: "a = u" by (auto split: if_splits)
    have "b \<notin> R"
    proof
      assume "b \<in> R"
      then have "(b, t) \<in> L\<^sup>*" by (simp add: R)
      with ab(1) a have "(u, t) \<in> L\<^sup>*" by (auto intro: converse_rtrancl_into_rtrancl)
      with u(2) show False by simp
    qed
    with ab(3) have v: "v = b" by simp
    from u(1) ab(1) a have sv: "(s, v) \<in> L\<^sup>*" by (auto simp: v intro: rtrancl_into_rtrancl)
    have "(v, t) \<notin> L\<^sup>*"
    proof
      assume "(v, t) \<in> L\<^sup>*"
      with ab(1) a v have "(u, t) \<in> L\<^sup>*" by (auto intro: converse_rtrancl_into_rtrancl)
      with u(2) show False by simp
    qed
    with sv show ?thesis by simp
  qed
  have reach_W: "v \<in> ?W" if "(t, v) \<in> L'\<^sup>+" for v
    using that
  proof (induction rule: trancl_induct)
    case (base y)
    then show ?case by (rule from_t)
  next
    case (step y z)
    from in_W [OF step.IH step(2)] show ?case .
  qed
  have no_t: "(t, t) \<notin> L'\<^sup>+"
  proof
    assume "(t, t) \<in> L'\<^sup>+"
    from reach_W [OF this] show False by simp
  qed
  have sub: "L' \<inter> {(u, v). u \<noteq> t \<and> v \<noteq> t} \<subseteq> L"
  proof
    fix e assume e: "e \<in> L' \<inter> {(u, v). u \<noteq> t \<and> v \<noteq> t}"
    obtain u v where uv: "e = (u, v)" by (cases e)
    with e have "(u, v) \<in> L'" "u \<noteq> t" "v \<noteq> t" by auto
    from edge [OF this(1)] this(2,3) have "(u, v) \<in> L"
      by (auto split: if_splits)
    with uv show "e \<in> L" by simp
  qed
  show ?thesis
    unfolding acyclic_def
  proof (intro allI notI)
    fix x assume x: "(x, x) \<in> L'\<^sup>+"
    from trancl_avoiding [OF x, of t] consider
        (a) "(x, x) \<in> (L' \<inter> {(u, v). u \<noteq> t \<and> v \<noteq> t})\<^sup>+"
      | (b) "x = t" | (c) "(x, t) \<in> L'\<^sup>+" "(t, x) \<in> L'\<^sup>+"
      by blast
    then show False
    proof cases
      case a
      with sub have "(x, x) \<in> L\<^sup>+" by (meson trancl_mono)
      with ac show False by (simp add: acyclic_def)
    next
      case b
      with x no_t show False by simp
    next
      case c
      then have "(t, t) \<in> L'\<^sup>+" by (meson trancl_trans)
      with no_t show False by simp
    qed
  qed
qed

text \<open>
  From a component of the roadmap the links lead to components of the roadmap only; a
  merge step contracts the absorbed component into \<open>cc1\<close>, and \<open>Roadmap::merge\<close>
  contracts all the components of its list.
\<close>

lemma live_links_rtrancl:
  assumes "roadmap_inv rm" and "c \<in> set (connectedComponents rm)"
  shows "(c, d) \<in> (links rm)\<^sup>* \<longleftrightarrow> (c, d) \<in> (live_links rm)\<^sup>*"
proof
  assume "(c, d) \<in> (links rm)\<^sup>*"
  then show "(c, d) \<in> (live_links rm)\<^sup>*"
  proof (induction rule: rtrancl_induct)
    case base
    show ?case by simp
  next
    case (step y z)
    from links_stay_in_roadmap [OF assms step(1)] step(2)
    have "(y, z) \<in> live_links rm" by (simp add: live_links_def links_def)
    with step.IH show ?case by (rule rtrancl_into_rtrancl)
  qed
next
  assume "(c, d) \<in> (live_links rm)\<^sup>*"
  moreover have "live_links rm \<subseteq> links rm" by (auto simp: live_links_def links_def)
  ultimately show "(c, d) \<in> (links rm)\<^sup>*" by (meson rtrancl_mono subsetD)
qed

lemma merge_step_reachableTo:
  "set (reachableTo (cc_heap (merge_step rm cc1 c) x)) =
     (if x = cc1
      then (set (reachableTo (cc_heap rm cc1)) \<union> set (reachableTo (cc_heap rm c))) - {cc1, c}
      else if x = c then set (reachableTo (cc_heap rm c))
      else if c \<in> set (reachableTo (cc_heap rm x))
           then insert cc1 (set (reachableTo (cc_heap rm x)) - {c})
           else set (reachableTo (cc_heap rm x)))"
  by (auto simp: merge_step_def ConnectedComponent_merge_def Let_def set_set_replace)

lemma merge_step_live_links:
  assumes "cc1 \<in> set (connectedComponents rm)" and "c \<in> set (connectedComponents rm)"
    and "c \<noteq> cc1"
  shows "live_links (merge_step rm cc1 c) =
           (\<lambda>(a, b). (if a = c then cc1 else a, if b = c then cc1 else b)) ` live_links rm
             - {(cc1, cc1)}"
    (is "?L' = ?f ` ?L - _")
proof (intro set_eqI iffI)
  fix e assume e: "e \<in> ?L'"
  obtain x y where xy: "e = (x, y)" by (cases e)
  with e have x: "x \<in> set (connectedComponents rm)" "x \<noteq> c"
    and y: "y \<in> set (reachableTo (cc_heap (merge_step rm cc1 c) x))"
    by (simp_all add: live_links_def merge_step_fields)
  show "e \<in> ?f ` ?L - {(cc1, cc1)}"
  proof (cases "x = cc1")
    case True
    with y have y': "y \<in> set (reachableTo (cc_heap rm cc1)) \<or> y \<in> set (reachableTo (cc_heap rm c))"
      "y \<noteq> cc1" "y \<noteq> c"
      by (auto simp: merge_step_reachableTo)
    from y'(1) have "(cc1, y) \<in> ?L \<or> (c, y) \<in> ?L"
      using assms by (auto simp: live_links_def)
    then have "(cc1, y) \<in> ?f ` ?L"
      using y'(3) assms(3) by (force simp: image_iff)
    with True xy y'(2) show ?thesis by simp
  next
    case False
    show ?thesis
    proof (cases "c \<in> set (reachableTo (cc_heap rm x))")
      case True
      with y x False have "y = cc1 \<or> (y \<in> set (reachableTo (cc_heap rm x)) \<and> y \<noteq> c)"
        by (auto simp: merge_step_reachableTo)
      then have "(x, y) \<in> ?f ` ?L"
      proof
        assume "y = cc1"
        moreover have "(x, c) \<in> ?L" using True x by (simp add: live_links_def)
        ultimately show ?thesis using x(2) by (force simp: image_iff)
      next
        assume "y \<in> set (reachableTo (cc_heap rm x)) \<and> y \<noteq> c"
        then have "(x, y) \<in> ?L" "y \<noteq> c" using x by (simp_all add: live_links_def)
        then show ?thesis using x(2) by (force simp: image_iff)
      qed
      with xy False show ?thesis by simp
    next
      case nc: False
      with y x False have "y \<in> set (reachableTo (cc_heap rm x))" "y \<noteq> c"
        by (auto simp: merge_step_reachableTo)
      then have xy': "(x, y) \<in> ?L" "y \<noteq> c" using x by (simp_all add: live_links_def)
      then have "(x, y) \<in> ?f ` ?L" using x(2) by (force simp: image_iff)
      with xy False show ?thesis by simp
    qed
  qed
next
  fix e assume e: "e \<in> ?f ` ?L - {(cc1, cc1)}"
  then obtain a b where ab: "(a, b) \<in> ?L" "e = (if a = c then cc1 else a, if b = c then cc1 else b)"
    "e \<noteq> (cc1, cc1)"
    by auto
  from ab(1) have a: "a \<in> set (connectedComponents rm)" "b \<in> set (reachableTo (cc_heap rm a))"
    by (simp_all add: live_links_def)
  show "e \<in> ?L'"
  proof (cases "a = c \<or> a = cc1")
    case True
    with ab(2,3) have e1: "e = (cc1, if b = c then cc1 else b)" "b \<noteq> c" "b \<noteq> cc1"
      by (auto split: if_splits)
    then have "e = (cc1, b)" by simp
    moreover have "b \<in> set (reachableTo (cc_heap (merge_step rm cc1 c) cc1))"
      using True a(2) e1(2,3) by (auto simp: merge_step_reachableTo)
    ultimately show ?thesis
      using assms by (simp add: live_links_def merge_step_fields)
  next
    case False
    then have e1: "e = (a, if b = c then cc1 else b)" using ab(2) by simp
    have "(if b = c then cc1 else b) \<in> set (reachableTo (cc_heap (merge_step rm cc1 c) a))"
      using False a(2) by (auto simp: merge_step_reachableTo)
    with e1 False a(1) show ?thesis
      by (simp add: live_links_def merge_step_fields)
  qed
qed

lemma merge_live_links:
  assumes "merge rm cc1 cs = Inr rm'" and "cc1 \<in> set (connectedComponents rm)"
    and "(cc1, cc1) \<notin> live_links rm"
  shows "live_links rm' =
           (\<lambda>(a, b). (if a \<in> set cs then cc1 else a, if b \<in> set cs then cc1 else b))
              ` live_links rm - {(cc1, cc1)}"
  using assms
proof (induction cs arbitrary: rm)
  case Nil
  then show ?case by (auto simp: image_iff)
next
  case (Cons c cs)
  let ?F = "\<lambda>S. (\<lambda>(a, b). (if a \<in> S then cc1 else a, if b \<in> S then cc1 else b))"
  show ?case
  proof (cases "c = cc1")
    case True
    with Cons.prems have m: "merge rm cc1 cs = Inr rm'" by (simp add: merge_Cons)
    have "?F (set (c # cs)) = ?F (set cs)"
      using True by (auto simp: fun_eq_iff)
    with Cons.IH [OF m Cons.prems(2,3)] show ?thesis by simp
  next
    case False
    let ?rm = "merge_step rm cc1 c"
    from Cons.prems(1) False have m: "merge ?rm cc1 cs = Inr rm'"
      and cnt: "count_list (connectedComponents rm) c = 1"
      by (simp_all add: merge_Cons split: if_splits)
    from cnt have c: "c \<in> set (connectedComponents rm)"
      using count_list_0_iff [of "connectedComponents rm" c] by auto
    have step: "live_links ?rm = ?F {c} ` live_links rm - {(cc1, cc1)}"
      using merge_step_live_links [OF Cons.prems(2) c False] by simp
    have cc1': "cc1 \<in> set (connectedComponents ?rm)"
      using Cons.prems(2) False by (simp add: merge_step_fields)
    have nl: "(cc1, cc1) \<notin> live_links ?rm" using step by simp
    have comp: "?F (set cs) (?F {c} e) = ?F (set (c # cs)) e" for e
      by (cases e) auto
    have "?F (set cs) ` (?F {c} ` live_links rm - {(cc1, cc1)}) - {(cc1, cc1)}
            = ?F (set (c # cs)) ` live_links rm - {(cc1, cc1)}"
    proof (intro set_eqI iffI)
      fix e assume "e \<in> ?F (set cs) ` (?F {c} ` live_links rm - {(cc1, cc1)}) - {(cc1, cc1)}"
      then obtain l where "l \<in> live_links rm" "e = ?F (set cs) (?F {c} l)" "e \<noteq> (cc1, cc1)"
        by blast
      then show "e \<in> ?F (set (c # cs)) ` live_links rm - {(cc1, cc1)}"
        using comp by blast
    next
      fix e assume "e \<in> ?F (set (c # cs)) ` live_links rm - {(cc1, cc1)}"
      then obtain l where l: "l \<in> live_links rm" "e = ?F (set (c # cs)) l" "e \<noteq> (cc1, cc1)"
        by blast
      then have e: "e = ?F (set cs) (?F {c} l)" using comp by simp
      have "?F {c} l \<noteq> (cc1, cc1)"
      proof
        assume "?F {c} l = (cc1, cc1)"
        with e have "e = (cc1, cc1)" by simp
        with l(3) show False by simp
      qed
      with l(1) e l(3)
      show "e \<in> ?F (set cs) ` (?F {c} ` live_links rm - {(cc1, cc1)}) - {(cc1, cc1)}"
        by blast
    qed
    with Cons.IH [OF m cc1' nl] step show ?thesis by simp
  qed
qed

lemma live_links_no_self:
  "acyclic (live_links rm) \<Longrightarrow> (c, c) \<notin> live_links rm"
  by (auto simp: acyclic_def)

lemma connect_acyclic:
  assumes inv: "roadmap_inv rm" and ac: "acyclic (live_links rm)"
    and cc1: "cc1 \<in> set (connectedComponents rm)" and cc2: "cc2 \<in> set (connectedComponents rm)"
    and c: "connect rm cc1 cc2 = Inr rm'"
  shows "acyclic (live_links rm')"
proof (cases "canReach rm cc1 cc2")
  case True
  with c ac show ?thesis by (simp add: connect_cases)
next
  case False
  show ?thesis
  proof (cases "canReach rm cc2 cc1")
    case True
    let ?R = "snd (canReach_collect rm cc2 cc1)"
    from c True False have m: "merge rm cc1 ?R = Inr rm'" by (simp add: connect_cases)
    have st: "(cc2, cc1) \<in> (live_links rm)\<^sup>*"
      using True inv cc2 by (simp add: canReach_iff_links live_links_rtrancl)
    have R: "set ?R = {x. (cc2, x) \<in> (live_links rm)\<^sup>* \<and> (x, cc1) \<in> (live_links rm)\<^sup>*}"
    proof -
      have "(cc2, x) \<in> (links rm)\<^sup>* \<and> (x, cc1) \<in> (links rm)\<^sup>*
            \<longleftrightarrow> (cc2, x) \<in> (live_links rm)\<^sup>* \<and> (x, cc1) \<in> (live_links rm)\<^sup>*" for x
      proof (cases "(cc2, x) \<in> (links rm)\<^sup>*")
        case True
        then have "x \<in> set (connectedComponents rm)"
          by (rule links_stay_in_roadmap [OF inv cc2])
        with True inv cc2 show ?thesis by (simp add: live_links_rtrancl)
      next
        case False
        with inv cc2 show ?thesis by (simp add: live_links_rtrancl)
      qed
      then show ?thesis by (simp add: canReach_collect_links [OF inv cc2])
    qed
    from merge_live_links [OF m cc1 live_links_no_self [OF ac]]
    have "live_links rm' =
           (\<lambda>(a, b). (if a \<in> set ?R then cc1 else a, if b \<in> set ?R then cc1 else b))
              ` live_links rm - {(cc1, cc1)}" .
    from contraction_acyclic [OF ac st R this] show ?thesis .
  next
    case no: False
    from c no False have rm': "rm' = connect_insert rm cc1 cc2" by (simp add: connect_cases)
    have ne: "cc1 \<noteq> cc2" using False canReach_refl by blast
    have to: "reachableTo (cc_heap rm' x) =
                (if x = cc1 then set_insert cc2 (reachableTo (cc_heap rm cc1))
                 else reachableTo (cc_heap rm x))" for x
      using ne by (simp add: rm' connect_insert_def)
    have "connectedComponents rm' = connectedComponents rm"
      by (simp add: rm' connect_insert_def)
    then have "live_links rm' = insert (cc1, cc2) (live_links rm)"
      using cc1 by (auto simp: live_links_def to split: if_splits)
    moreover have "(cc2, cc1) \<notin> (live_links rm)\<^sup>*"
      using no inv cc2 by (simp add: canReach_iff_links live_links_rtrancl)
    ultimately show ?thesis using ac by (simp add: acyclic_insert)
  qed
qed


lemma acyclic_addNode_fresh:
  assumes "roadmap_inv rm" and "acyclic (live_links rm)"
  shows "acyclic (live_links (snd (addNode_fresh rm q)))"
proof -
  have fresh: "next_cc rm \<notin> set (connectedComponents rm)"
    using assms(1) unfolding roadmap_inv_def by blast
  then have "live_links (snd (addNode_fresh rm q)) = live_links rm"
    by (auto simp: live_links_def addNode_fresh_def split: if_splits)
  with assms(2) show ?thesis by simp
qed

lemma acyclic_addNode:
  assumes "roadmap_inv rm" and "acyclic (live_links rm)" and "addNode rm q = Inr (n, rm')"
  shows "acyclic (live_links rm')"
  using assms acyclic_addNode_fresh [OF assms(1,2), of q]
  by (auto simp: addNode_cases split: if_splits option.splits)

lemma live_links_addNode_in_fresh:
  "live_links (snd (addNode_in_fresh rm q cc)) = live_links rm"
  by (auto simp: live_links_def addNode_in_fresh_def split: if_splits)

lemma acyclic_addNode_in:
  assumes "acyclic (live_links rm)" and "addNode_in rm q cc = Inr (n, rm')"
  shows "acyclic (live_links rm')"
  using assms live_links_addNode_in_fresh [of rm q cc]
  by (auto simp: addNode_in_cases split: if_splits option.splits)

lemma live_links_add_one_edge: "live_links (add_one_edge rm a b p) = live_links rm"
  by (simp add: live_links_def add_one_edge_fields)

lemma live_links_addEdges: "live_links (addEdges rv rm a b p) = live_links rm"
  by (simp add: live_links_def addEdges_fields)

lemma reachable_acyclic: "reachable rm \<Longrightarrow> acyclic (live_links rm)"
proof (induction rule: reachable.induct)
  case (reach_create d)
  show ?case by (simp add: live_links_def Roadmap_create_def acyclic_def)
next
  case (reach_clear rm)
  show ?case by (simp add: live_links_def clear_def acyclic_def)
next
  case (reach_addNode rm q n rm')
  from acyclic_addNode [OF reachable_inv [OF reach_addNode.hyps(1)] reach_addNode.IH
                          reach_addNode.hyps(2)]
  show ?case .
next
  case (reach_addNode_in rm cc q n rm')
  from acyclic_addNode_in [OF reach_addNode_in.IH reach_addNode_in.hyps(3)]
  show ?case .
next
  case (reach_addEdge rm n1 n2 p e rm')
  have inv: "roadmap_inv rm" by (rule reachable_inv [OF reach_addEdge.hyps(1)])
  let ?A = "add_one_edge rm n1 n2 p"
  have c: "connectedComponent (node_heap rm n1) \<in> set (connectedComponents ?A)"
       "connectedComponent (node_heap rm n2) \<in> set (connectedComponents ?A)"
    using inv reach_addEdge.hyps(2,3) unfolding roadmap_inv_def
    by (simp_all add: add_one_edge_fields)
  from reach_addEdge.hyps(4) have "connect ?A (connectedComponent (node_heap rm n1))
             (connectedComponent (node_heap rm n2)) = Inr rm'"
    by (auto simp: addEdge_cases split: sum.splits)
  from connect_acyclic [OF roadmap_inv_add_one_edge [OF inv] _ c this] reach_addEdge.IH
  show ?case by (simp add: live_links_add_one_edge)
next
  case (reach_addEdges rm n1 n2 rv p)
  then show ?case by (simp add: live_links_addEdges)
next
  case (reach_addNodeAndEdges rm n1 rv q p n rm')
  from reach_addNodeAndEdges.hyps(3) obtain rm1 where
    a: "addNode_in rm q (connectedComponent (node_heap rm n1)) = Inr (n, rm1)"
    and r: "rm' = addEdges rv rm1 n1 n p"
    by (auto simp: addNodeAndEdges_def split: sum.splits)
  from acyclic_addNode_in [OF reach_addNodeAndEdges.IH a] r show ?case
    by (simp add: live_links_addEdges)
next
  case (reach_addGoalNode rm q rm')
  then obtain n rm1 where a: "addNode rm q = Inr (n, rm1)"
    and r: "rm' = rm1\<lparr> goalNodes := goalNodes rm1 @ [n] \<rparr>"
    by (auto simp: addGoalNode_def split: sum.splits)
  from acyclic_addNode [OF reachable_inv [OF reach_addGoalNode.hyps(1)] reach_addGoalNode.IH a] r
  show ?case by (simp add: live_links_def)
qed

subsection \<open>Normal returns on consistent roadmaps\<close>

lemma nearestNode_found:
  assumes inv: "roadmap_inv rm" and ne: "nodes rm \<noteq> []"
  shows "\<exists>n\<in>set (nodes rm).
           nearestNode rm q = (Some n, Finite (node_distance rm q n))
         \<and> (\<forall>m\<in>set (nodes rm). node_distance rm q n \<le> node_distance rm q m)"
proof -
  have kd: "set (kdTree rm) = set (nodes rm)"
    and comp: "\<forall>m\<in>set (nodes rm).
                 connectedComponent (node_heap rm m) \<in> set (connectedComponents rm)"
    using inv unfolding roadmap_inv_def by blast+
  from ne obtain m0 where m0: "m0 \<in> set (nodes rm)"
    by (cases "nodes rm") auto
  from nearestNode_ok [of rm q] kd comp m0 show ?thesis
    unfolding best_ok_def by auto
qed

lemma addNode_total:
  assumes "roadmap_inv rm"
  shows "\<exists>n rm'. addNode rm q = Inr (n, rm')"
proof (cases "nodes rm = []")
  case True
  then show ?thesis by (simp add: addNode_cases)
next
  case False
  from nearestNode_found [OF assms False, of q] show ?thesis
    by (auto simp: addNode_cases)
qed

lemma addNode_existing:
  assumes inv: "roadmap_inv rm"
    and nonneg: "\<forall>a b. 0 \<le> distance rm a b"
    and zero: "\<forall>a b. (distance rm a b = 0) = (a = b)"
    and m: "m \<in> set (nodes rm)" "configuration (node_heap rm m) = q"
  shows "\<exists>n\<in>set (nodes rm). configuration (node_heap rm n) = q \<and> addNode rm q = Inr (n, rm)"
proof -
  have ne: "nodes rm \<noteq> []" using m(1) by auto
  from nearestNode_found [OF inv ne, of q] obtain n where n: "n \<in> set (nodes rm)"
    and r: "nearestNode rm q = (Some n, Finite (node_distance rm q n))"
    and least: "\<forall>k\<in>set (nodes rm). node_distance rm q n \<le> node_distance rm q k"
    by blast
  have "node_distance rm q m = 0" using zero m(2) by simp
  with least m(1) have "node_distance rm q n \<le> 0" by force
  with nonneg have "node_distance rm q n = 0" by (simp add: order_antisym)
  with zero have c: "configuration (node_heap rm n) = q" by simp
  with r ne have "addNode rm q = Inr (n, rm)" by (simp add: addNode_cases)
  with n c show ?thesis by blast
qed

lemma addNode_new:
  assumes inv: "roadmap_inv rm"
    and none: "\<forall>m\<in>set (nodes rm). configuration (node_heap rm m) \<noteq> q"
  shows "addNode rm q = Inr (addNode_fresh rm q)"
proof (cases "nodes rm = []")
  case True
  then show ?thesis by (simp add: addNode_cases)
next
  case False
  from nearestNode_found [OF inv False, of q] none show ?thesis
    by (auto simp: addNode_cases)
qed

lemma reachable_addNode: "reachable rm \<Longrightarrow> reachable (snd (projr (addNode rm q)))"
  using addNode_total [OF reachable_inv, of rm q]
  by (auto intro: reach_addNode)

lemma reachable_addEdge:
  assumes "reachable rm" "n1 \<in> set (nodes rm)" "n2 \<in> set (nodes rm)"
  shows "reachable (snd (projr (addEdge rm n1 n2 p)))"
  using addEdge_total [OF reachable_inv [OF assms(1)] assms(2,3), of p] assms
  by (auto intro: reach_addEdge)

subsection \<open>The example roadmaps\<close>

lemmas eval_defs = addNode_cases addNode_fresh_def Roadmap_create_def
     nearestNode_def nearestNode_step_def KDTree_search_def KDTree_scan_def example_distance_def
     set_insert_def set_erase_def set_replace_def addEdge_cases add_one_edge_def Edge_new_def Node_addOutEdge_def
     Node_addInEdge_def connect_cases canReach_def canReach_collect_def downward_closure_def connect_insert_def
     merge_Cons merge_step_def ConnectedComponent_merge_def Let_def addEdges_def

lemmas example_defs = chain_def two_way_def one_way_def three_nodes_def

lemma example_distance_metric:
  "\<forall>a b. 0 \<le> example_distance a b" "\<forall>a b. (example_distance a b = 0) = (a = b)"
  by (auto simp: example_distance_def)

lemma reachable_three_nodes: "reachable three_nodes"
  unfolding three_nodes_def
  by (intro reachable_addNode reach_create)

lemma reachable_one_way: "reachable one_way"
  unfolding one_way_def
  by (rule reachable_addEdge [OF reachable_three_nodes]) (simp_all add: three_nodes_def eval_defs)

lemma reachable_chain: "reachable chain"
  unfolding chain_def
  by (rule reachable_addEdge [OF reachable_one_way])
     (simp_all add: one_way_def three_nodes_def eval_defs)

lemma addEdge_three_nodes: "addEdge three_nodes 0 1 () = Inr (0, one_way)"
proof -
  from addEdge_total [OF reachable_inv [OF reachable_three_nodes], of 0 1 "()"]
  obtain rm' where "addEdge three_nodes 0 1 () = Inr (next_edge three_nodes, rm')"
    by (auto simp: three_nodes_def eval_defs)
  moreover have "next_edge three_nodes = 0"
    by (simp add: three_nodes_def eval_defs)
  ultimately show ?thesis by (simp add: one_way_def)
qed

lemma addEdge_one_way: "addEdge one_way 1 0 () = Inr (1, two_way)"
proof -
  have "1 \<in> set (nodes one_way)" "0 \<in> set (nodes one_way)"
    by (simp_all add: one_way_def three_nodes_def eval_defs)
  from addEdge_total [OF reachable_inv [OF reachable_one_way] this, of "()"]
  obtain rm' where "addEdge one_way 1 0 () = Inr (next_edge one_way, rm')"
    by auto
  moreover have "next_edge one_way = 1"
    by (simp add: one_way_def three_nodes_def eval_defs)
  ultimately show ?thesis by (simp add: two_way_def)
qed

subsection \<open>The claims about the roadmap\<close>

text \<open>
  C1 (as stated, refuted). On the roadmap of three separate nodes, \<open>addEdge\<close> from
  node \<open>0\<close> to node \<open>1\<close> followed by \<open>addEdge\<close> back with the reversed path links the two
  components and then merges them: two components remain and node \<open>0\<close> belongs to
  component \<open>1\<close>. \<open>addEdges\<close> on the same arguments leaves the three components and all
  reachability sets as they were.
\<close>

theorem C1_addEdges_skips_connect_counterexample:
  "reachable three_nodes
   \<and> addEdge three_nodes 0 1 () = Inr (0, one_way)
   \<and> addEdge one_way 1 0 (id ()) = Inr (1, two_way)
   \<and> connectedComponents two_way = [1, 2]
   \<and> connectedComponent (node_heap two_way 0) = 1
   \<and> connectedComponents (addEdges id three_nodes 0 1 ()) = [0, 1, 2]
   \<and> connectedComponent (node_heap (addEdges id three_nodes 0 1 ()) 0) = 0
   \<and> reachableTo (cc_heap (addEdges id three_nodes 0 1 ()) 0) = []
   \<and> reachableTo (cc_heap one_way 0) = [1]"
  using reachable_three_nodes addEdge_three_nodes addEdge_one_way
  by (simp add: example_defs eval_defs)

text \<open>
  \<open>addEdges\<close> against the two calls of \<open>addEdge\<close>, when both return normally.
\<close>

lemma addEdges_versus_two_addEdge:
  assumes "addEdge rm a b p = Inr (e1, rm1)" and "addEdge rm1 b a (rv p) = Inr (e2, rm2)"
  shows "edges (addEdges rv rm a b p) = edges rm @ [e1, e2]
       \<and> edges rm2 = edges rm @ [e1, e2]
       \<and> edge_heap (addEdges rv rm a b p) = edge_heap rm2
       \<and> edge_heap rm2 e1 = Some \<lparr> edge_from = a, edge_to = b, edge_path = p \<rparr>
       \<and> edge_heap rm2 e2 = Some \<lparr> edge_from = b, edge_to = a, edge_path = rv p \<rparr>
       \<and> (\<forall>n. outEdges (node_heap (addEdges rv rm a b p) n) = outEdges (node_heap rm2 n)
              \<and> inEdges (node_heap (addEdges rv rm a b p) n) = inEdges (node_heap rm2 n))
       \<and> connectedComponents (addEdges rv rm a b p) = connectedComponents rm
       \<and> cc_heap (addEdges rv rm a b p) = cc_heap rm
       \<and> (\<forall>n. connectedComponent (node_heap (addEdges rv rm a b p) n)
                = connectedComponent (node_heap rm n))
       \<and> (connectedComponent (node_heap rm a) = connectedComponent (node_heap rm b)
            \<longrightarrow> addEdges rv rm a b p = rm2)"
proof -
  let ?A = "add_one_edge rm a b p"
  let ?B = "add_one_edge ?A b a (rv p)"
  let ?B' = "add_one_edge rm1 b a (rv p)"
  have B: "addEdges rv rm a b p = ?B" by (rule addEdges_two_edges)
  from assms(1) have e1: "e1 = next_edge rm"
    and c1: "connect ?A (connectedComponent (node_heap rm a))
               (connectedComponent (node_heap rm b)) = Inr rm1"
    by (auto simp: addEdge_cases split: sum.splits)
  from assms(2) have e2: "e2 = next_edge rm1"
    and c2: "connect ?B' (connectedComponent (node_heap rm1 b))
               (connectedComponent (node_heap rm1 a)) = Inr rm2"
    by (auto simp: addEdge_cases split: sum.splits)
  have u1: "untouched_by_connect ?A rm1" by (rule untouched_by_connect [OF c1])
  have u2: "untouched_by_connect ?B' rm2" by (rule untouched_by_connect [OF c2])
  have u: "untouched_by_connect ?B rm2"
    by (rule untouched_by_connect_trans [OF add_one_edge_untouched [OF u1] u2])
  have e2': "e2 = Suc (next_edge rm)"
    using u1 e2 by (simp add: untouched_by_connect_def add_one_edge_fields)
  have edgesB: "edges ?B = edges rm @ [e1, e2]"
    by (simp add: add_one_edge_fields e1 e2')
  have heapB: "edge_heap ?B e1 = Some \<lparr> edge_from = a, edge_to = b, edge_path = p \<rparr>"
      "edge_heap ?B e2 = Some \<lparr> edge_from = b, edge_to = a, edge_path = rv p \<rparr>"
    by (simp_all add: add_one_edge_edge_heap add_one_edge_fields e1 e2')
  have same: "addEdges rv rm a b p = rm2"
    if s: "connectedComponent (node_heap rm a) = connectedComponent (node_heap rm b)"
  proof -
    from c1 s have r1: "rm1 = ?A" by (simp add: connect_same_component)
    with c2 s have "rm2 = ?B" by (simp add: connect_same_component add_one_edge_fields)
    with B show ?thesis by simp
  qed
  from u edgesB heapB same show ?thesis
    unfolding B untouched_by_connect_def
    by (simp add: add_one_edge_fields)
qed

text \<open>
  C1 (amended). On a roadmap built by the public operations, for nodes \<open>from\<close> and \<open>to\<close>
  of the roadmap, \<open>addEdge (from, to, p)\<close> followed by
  \<open>addEdge (to, from, p.reverse ())\<close> returns normally, and \<open>addEdges (from, to, p)\<close>
  appends the same two edges in the same order, stores the same edge objects and leaves
  every node with the same incoming and outgoing edge lists; but it does not call
  \<open>connect\<close>: the set of components, the components themselves and every node's
  component are left unchanged. When \<open>from\<close> and \<open>to\<close> are already in the same component
  the two final states are equal.
\<close>

theorem C1_addEdges_appends_without_connect:
  assumes "reachable rm" and "a \<in> set (nodes rm)" and "b \<in> set (nodes rm)"
  shows "\<exists>e1 rm1 e2 rm2.
         addEdge rm a b p = Inr (e1, rm1) \<and> addEdge rm1 b a (rv p) = Inr (e2, rm2)
       \<and> edges (addEdges rv rm a b p) = edges rm @ [e1, e2]
       \<and> edges rm2 = edges rm @ [e1, e2]
       \<and> edge_heap (addEdges rv rm a b p) = edge_heap rm2
       \<and> edge_heap rm2 e1 = Some \<lparr> edge_from = a, edge_to = b, edge_path = p \<rparr>
       \<and> edge_heap rm2 e2 = Some \<lparr> edge_from = b, edge_to = a, edge_path = rv p \<rparr>
       \<and> (\<forall>n. outEdges (node_heap (addEdges rv rm a b p) n) = outEdges (node_heap rm2 n)
              \<and> inEdges (node_heap (addEdges rv rm a b p) n) = inEdges (node_heap rm2 n))
       \<and> connectedComponents (addEdges rv rm a b p) = connectedComponents rm
       \<and> cc_heap (addEdges rv rm a b p) = cc_heap rm
       \<and> (\<forall>n. connectedComponent (node_heap (addEdges rv rm a b p) n)
                = connectedComponent (node_heap rm n))
       \<and> (connectedComponent (node_heap rm a) = connectedComponent (node_heap rm b)
            \<longrightarrow> addEdges rv rm a b p = rm2)"
proof -
  have inv: "roadmap_inv rm" by (rule reachable_inv [OF assms(1)])
  from addEdge_total [OF inv assms(2,3), of p] obtain rm1 where
    1: "addEdge rm a b p = Inr (next_edge rm, rm1)" and inv1: "roadmap_inv rm1"
    by blast
  from 1 have "connect (add_one_edge rm a b p) (connectedComponent (node_heap rm a))
               (connectedComponent (node_heap rm b)) = Inr rm1"
    by (auto simp: addEdge_cases split: sum.splits)
  from untouched_by_connect [OF this] have "nodes rm1 = nodes rm"
    by (simp add: untouched_by_connect_def add_one_edge_fields)
  with assms(2,3) have "b \<in> set (nodes rm1)" "a \<in> set (nodes rm1)" by simp_all
  from addEdge_total [OF inv1 this, of "rv p"] obtain rm2 where
    2: "addEdge rm1 b a (rv p) = Inr (next_edge rm1, rm2)"
    by blast
  from addEdges_versus_two_addEdge [where rv = rv, OF 1 2] 1 2 show ?thesis
    by blast
qed

text \<open>
  C1 (witness): node \<open>0\<close> and node \<open>1\<close> of the roadmap of three separate nodes.
\<close>

theorem C1_addEdges_appends_without_connect_witness:
  "addEdge three_nodes 0 1 () = Inr (0, one_way)
   \<and> addEdge one_way 1 0 (id ()) = Inr (1, two_way)
   \<and> edges (addEdges id three_nodes 0 1 ()) = [0, 1]
   \<and> edges two_way = [0, 1]
   \<and> outEdges (node_heap two_way 0) = [0] \<and> inEdges (node_heap two_way 0) = [1]
   \<and> outEdges (node_heap (addEdges id three_nodes 0 1 ()) 0) = [0]
   \<and> inEdges (node_heap (addEdges id three_nodes 0 1 ()) 0) = [1]"
proof -
  have h: "addEdge three_nodes 0 1 () = Inr (0, one_way)"
      "addEdge one_way 1 0 (id ()) = Inr (1, two_way)"
    using addEdge_three_nodes addEdge_one_way by simp_all
  have e: "edges three_nodes = []" by (simp add: three_nodes_def eval_defs)
  have v: "outEdges (node_heap (addEdges id three_nodes 0 1 ()) 0) = [0]"
      "inEdges (node_heap (addEdges id three_nodes 0 1 ()) 0) = [1]"
    by (simp_all add: three_nodes_def eval_defs)
  have m: "0 \<in> set (nodes three_nodes)" "1 \<in> set (nodes three_nodes)"
    by (simp_all add: three_nodes_def eval_defs)
  from C1_addEdges_appends_without_connect
         [of three_nodes 0 1 "()" id, OF reachable_three_nodes m] e v h
  show ?thesis
    by simp
qed

text \<open>
  C2 (as stated, refuted). After adding three nodes, the edge from node \<open>0\<close> to node \<open>1\<close>
  and the edge from node \<open>1\<close> to node \<open>2\<close>, the components \<open>0\<close>, \<open>1\<close>, \<open>2\<close> are all in the
  roadmap, \<open>1\<close> is in \<open>reachableTo\<close> of \<open>0\<close> and \<open>2\<close> is in \<open>reachableTo\<close> of \<open>1\<close>, but
  \<open>2\<close> is not in \<open>reachableTo\<close> of \<open>0\<close>.
\<close>

theorem C2_reachability_not_closed_counterexample:
  "reachable chain
   \<and> 0 \<in> set (connectedComponents chain) \<and> 1 \<in> set (connectedComponents chain)
   \<and> 2 \<in> set (connectedComponents chain)
   \<and> 1 \<in> set (reachableTo (cc_heap chain 0))
   \<and> 2 \<in> set (reachableTo (cc_heap chain 1))
   \<and> 2 \<notin> set (reachableTo (cc_heap chain 0))"
proof -
  have "reachable chain"
    unfolding chain_def
    by (rule reachable_addEdge [OF reachable_one_way])
       (simp_all add: one_way_def three_nodes_def eval_defs)
  then show ?thesis
    by (simp add: example_defs eval_defs)
qed

text \<open>
  C2 (amended). When neither component can reach the other, \<open>connect (cc1, cc2)\<close>
  returns normally and adds \<open>cc2\<close> to \<open>reachableTo\<close> of \<open>cc1\<close> and \<open>cc1\<close> to
  \<open>reachableFrom\<close> of \<open>cc2\<close>; no other reachability set, no member list, no node and not
  the set of components changes. The reachability sets hold the links that were
  inserted, not their transitive closure.
\<close>

theorem C2_connect_adds_direct_link_only:
  assumes "\<not> canReach rm cc1 cc2" and "\<not> canReach rm cc2 cc1"
  shows "\<exists>rm'. connect rm cc1 cc2 = Inr rm'
      \<and> reachableTo (cc_heap rm' cc1) = set_insert cc2 (reachableTo (cc_heap rm cc1))
      \<and> reachableFrom (cc_heap rm' cc2) = set_insert cc1 (reachableFrom (cc_heap rm cc2))
      \<and> (\<forall>c. (c \<noteq> cc1 \<longrightarrow> reachableTo (cc_heap rm' c) = reachableTo (cc_heap rm c))
            \<and> (c \<noteq> cc2 \<longrightarrow> reachableFrom (cc_heap rm' c) = reachableFrom (cc_heap rm c))
            \<and> cc_nodes (cc_heap rm' c) = cc_nodes (cc_heap rm c))
      \<and> connectedComponents rm' = connectedComponents rm
      \<and> node_heap rm' = node_heap rm"
proof -
  from assms(1) have "cc1 \<noteq> cc2" using canReach_refl by blast
  with assms show ?thesis
    by (auto simp: connect_cases connect_insert_def)
qed

text \<open>
  C2 (witness): connecting component \<open>1\<close> to component \<open>2\<close> after the edge from node \<open>0\<close>
  to node \<open>1\<close>; \<open>reachableTo\<close> of component \<open>0\<close> stays \<open>{1}\<close>.
\<close>

theorem C2_connect_adds_direct_link_only_witness:
  "\<not> canReach one_way 1 2 \<and> \<not> canReach one_way 2 1
   \<and> reachableTo (cc_heap (projr (connect one_way 1 2)) 1) = [2]
   \<and> reachableFrom (cc_heap (projr (connect one_way 1 2)) 2) = [1]
   \<and> reachableTo (cc_heap (projr (connect one_way 1 2)) 0) = [1]"
proof -
  have h: "\<not> canReach one_way 1 2" "\<not> canReach one_way 2 1"
    by (simp_all add: one_way_def three_nodes_def eval_defs)
  have v: "reachableTo (cc_heap one_way 1) = []" "reachableFrom (cc_heap one_way 2) = []"
    "reachableTo (cc_heap one_way 0) = [1]"
    by (simp_all add: one_way_def three_nodes_def eval_defs)
  from C2_connect_adds_direct_link_only [OF h] v
  have "reachableTo (cc_heap (projr (connect one_way 1 2)) 1) = [2]
   \<and> reachableFrom (cc_heap (projr (connect one_way 1 2)) 2) = [1]
   \<and> reachableTo (cc_heap (projr (connect one_way 1 2)) 0) = [1]"
    by (auto simp: set_insert_def)
  with h show ?thesis by blast
qed

text \<open>
  The cycle branch of \<open>Roadmap::connect\<close>: \<open>cc1\<close> cannot reach \<open>cc2\<close> and \<open>cc2\<close> can reach
  \<open>cc1\<close>.
\<close>

lemma connect_merges_cycle:
  assumes "roadmap_inv rm"
    and "cc1 \<in> set (connectedComponents rm)" and "cc2 \<in> set (connectedComponents rm)"
    and "(cc1, cc2) \<notin> (links rm)\<^sup>*" and "(cc2, cc1) \<in> (links rm)\<^sup>*"
  shows "\<exists>rm'. connect rm cc1 cc2 = Inr rm'
      \<and> set (connectedComponents rm') =
          set (connectedComponents rm)
            - {c. (cc2, c) \<in> (links rm)\<^sup>* \<and> (c, cc1) \<in> (links rm)\<^sup>* \<and> c \<noteq> cc1}
      \<and> cc1 \<in> set (connectedComponents rm')
      \<and> (\<forall>c. (cc2, c) \<in> (links rm)\<^sup>* \<and> (c, cc1) \<in> (links rm)\<^sup>* \<and> c \<noteq> cc1 \<longrightarrow>
             c \<notin> set (connectedComponents rm')
           \<and> (\<forall>n\<in>set (cc_nodes (cc_heap rm c)).
                 connectedComponent (node_heap rm' n) = cc1
               \<and> n \<in> set (cc_nodes (cc_heap rm' cc1))))"
proof -
  let ?R = "snd (canReach_collect rm cc2 cc1)"
  have R: "set ?R = {c. (cc2, c) \<in> (links rm)\<^sup>* \<and> (c, cc1) \<in> (links rm)\<^sup>*}"
    by (rule canReach_collect_links [OF assms(1,3)])
  have "\<not> canReach rm cc1 cc2" and "canReach rm cc2 cc1"
    using assms by (simp_all add: canReach_iff_links)
  then have c: "connect rm cc1 cc2 = merge rm cc1 ?R"
    by (simp add: connect_cases)
  from merge_total [OF assms(1,2) canReach_collect_subset(2,1) [OF assms(1,3)]]
  obtain rm' where m: "merge rm cc1 ?R = Inr rm'" by blast
  have ccs: "connectedComponents rm' =
               filter (\<lambda>c. c = cc1 \<or> c \<notin> set ?R) (connectedComponents rm)"
    by (rule merge_connectedComponents [OF m])
  have s: "set (connectedComponents rm') =
          set (connectedComponents rm)
            - {c. (cc2, c) \<in> (links rm)\<^sup>* \<and> (c, cc1) \<in> (links rm)\<^sup>* \<and> c \<noteq> cc1}"
    by (auto simp: ccs R)
  have root: "cc1 \<in> set (connectedComponents rm')"
    using assms(2) by (simp add: ccs)
  have moved: "\<forall>c. (cc2, c) \<in> (links rm)\<^sup>* \<and> (c, cc1) \<in> (links rm)\<^sup>* \<and> c \<noteq> cc1 \<longrightarrow>
             c \<notin> set (connectedComponents rm')
           \<and> (\<forall>n\<in>set (cc_nodes (cc_heap rm c)).
                 connectedComponent (node_heap rm' n) = cc1
               \<and> n \<in> set (cc_nodes (cc_heap rm' cc1)))"
  proof (intro allI impI)
    fix x assume x: "(cc2, x) \<in> (links rm)\<^sup>* \<and> (x, cc1) \<in> (links rm)\<^sup>* \<and> x \<noteq> cc1"
    then have "x \<in> set ?R" by (simp add: R)
    with merge_repoints_nodes [OF m this] x s
    show "x \<notin> set (connectedComponents rm')
           \<and> (\<forall>n\<in>set (cc_nodes (cc_heap rm x)).
                 connectedComponent (node_heap rm' n) = cc1
               \<and> n \<in> set (cc_nodes (cc_heap rm' cc1)))"
      by blast
  qed
  from c m s root moved show ?thesis by simp
qed

text \<open>
  C3. On a consistent roadmap whose graph of components is acyclic (every roadmap built
  by the public operations is both, lemmas \<open>reachable_inv\<close> and \<open>reachable_acyclic\<close>, and
  so is the roadmap on which \<open>addEdge\<close> calls \<open>connect\<close>), for components \<open>cc1\<close> and \<open>cc2\<close>
  of the roadmap such that \<open>cc2\<close> can reach \<open>cc1\<close> along any number of stored links:
  \<open>connect (cc1, cc2)\<close> returns normally; the components left in the roadmap are those
  it had except the members of \<open>R = {c : cc2 can reach c and c can reach cc1}\<close> other than
  \<open>cc1\<close>; \<open>cc1\<close> remains; and every node of such a member now points to \<open>cc1\<close> and is
  a member of \<open>cc1\<close>.
\<close>

theorem C3_cycle_members_merged:
  assumes "roadmap_inv rm" and "acyclic (live_links rm)"
    and "cc1 \<in> set (connectedComponents rm)" and "cc2 \<in> set (connectedComponents rm)"
    and "(cc2, cc1) \<in> (links rm)\<^sup>*"
  shows "\<exists>rm'. connect rm cc1 cc2 = Inr rm'
      \<and> set (connectedComponents rm') =
          set (connectedComponents rm)
            - {c. (cc2, c) \<in> (links rm)\<^sup>* \<and> (c, cc1) \<in> (links rm)\<^sup>* \<and> c \<noteq> cc1}
      \<and> cc1 \<in> set (connectedComponents rm')
      \<and> (\<forall>c. (cc2, c) \<in> (links rm)\<^sup>* \<and> (c, cc1) \<in> (links rm)\<^sup>* \<and> c \<noteq> cc1 \<longrightarrow>
             c \<notin> set (connectedComponents rm')
           \<and> (\<forall>n\<in>set (cc_nodes (cc_heap rm c)).
                 connectedComponent (node_heap rm' n) = cc1
               \<and> n \<in> set (cc_nodes (cc_heap rm' cc1))))"
proof (cases "(cc1, cc2) \<in> (links rm)\<^sup>*")
  case False
  from connect_merges_cycle [OF assms(1,3,4) False assms(5)] show ?thesis .
next
  case True
  have eq: "cc1 = cc2"
  proof (rule ccontr)
    assume ne: "cc1 \<noteq> cc2"
    from True assms(1,3) have "(cc1, cc2) \<in> (live_links rm)\<^sup>*"
      by (simp add: live_links_rtrancl)
    with ne have "(cc1, cc2) \<in> (live_links rm)\<^sup>+" by (simp add: rtrancl_eq_or_trancl)
    moreover from assms(1,4,5) have "(cc2, cc1) \<in> (live_links rm)\<^sup>*"
      by (simp add: live_links_rtrancl)
    ultimately have "(cc1, cc1) \<in> (live_links rm)\<^sup>+" by simp
    with assms(2) show False by (simp add: acyclic_def)
  qed
  have none: "{c. (cc2, c) \<in> (links rm)\<^sup>* \<and> (c, cc1) \<in> (links rm)\<^sup>* \<and> c \<noteq> cc1} = {}"
  proof -
    have False if c: "(cc1, c) \<in> (links rm)\<^sup>*" "(c, cc1) \<in> (links rm)\<^sup>*" "c \<noteq> cc1" for c
    proof -
      have cl: "c \<in> set (connectedComponents rm)"
        by (rule links_stay_in_roadmap [OF assms(1,3) c(1)])
      from c(1) assms(1,3) have "(cc1, c) \<in> (live_links rm)\<^sup>*"
        by (simp add: live_links_rtrancl)
      with c(3) have "(cc1, c) \<in> (live_links rm)\<^sup>+" by (auto simp: rtrancl_eq_or_trancl)
      moreover from c(2) assms(1) cl have "(c, cc1) \<in> (live_links rm)\<^sup>*"
        by (simp add: live_links_rtrancl)
      ultimately have "(cc1, cc1) \<in> (live_links rm)\<^sup>+" by simp
      with assms(2) show False by (simp add: acyclic_def)
    qed
    then show ?thesis using eq by blast
  qed
  have same: "connect rm cc1 cc2 = Inr rm"
    using eq by (simp add: connect_same_component)
  show ?thesis
  proof (intro exI [of _ rm] conjI)
    show "connect rm cc1 cc2 = Inr rm" by (rule same)
    show "set (connectedComponents rm) =
          set (connectedComponents rm)
            - {c. (cc2, c) \<in> (links rm)\<^sup>* \<and> (c, cc1) \<in> (links rm)\<^sup>* \<and> c \<noteq> cc1}"
      unfolding none by simp
    show "cc1 \<in> set (connectedComponents rm)" by (rule assms(3))
    show "\<forall>c. (cc2, c) \<in> (links rm)\<^sup>* \<and> (c, cc1) \<in> (links rm)\<^sup>* \<and> c \<noteq> cc1 \<longrightarrow>
             c \<notin> set (connectedComponents rm)
           \<and> (\<forall>n\<in>set (cc_nodes (cc_heap rm c)).
                 connectedComponent (node_heap rm n) = cc1
               \<and> n \<in> set (cc_nodes (cc_heap rm cc1)))"
      using none by blast
  qed
qed

text \<open>
  C3 (witness): after the edges from node \<open>0\<close> to node \<open>1\<close> and from node \<open>1\<close> to node
  \<open>2\<close>, component \<open>0\<close> reaches component \<open>2\<close> only through component \<open>1\<close>. Connecting
  component \<open>2\<close> to component \<open>0\<close> closes the cycle through all three: components \<open>0\<close>
  and \<open>1\<close> leave the roadmap, only component \<open>2\<close> remains, and nodes \<open>0\<close> and \<open>1\<close> move to
  it.
\<close>

theorem C3_cycle_members_merged_witness:
  "roadmap_inv chain \<and> acyclic (live_links chain)
   \<and> 2 \<in> set (connectedComponents chain) \<and> 0 \<in> set (connectedComponents chain)
   \<and> (0, 2) \<in> (links chain)\<^sup>*
   \<and> 1 \<notin> set (reachableTo (cc_heap chain 2)) \<and> 2 \<notin> set (reachableTo (cc_heap chain 0))
   \<and> connectedComponents (projr (connect chain 2 0)) = [2]
   \<and> connectedComponent (node_heap (projr (connect chain 2 0)) 0) = 2
   \<and> connectedComponent (node_heap (projr (connect chain 2 0)) 1) = 2"
proof -
  have inv: "roadmap_inv chain"
    by (rule reachable_inv [OF reachable_chain])
  have m: "2 \<in> set (connectedComponents chain)" "0 \<in> set (connectedComponents chain)"
      "1 \<in> set (connectedComponents chain)"
    by (simp_all add: example_defs eval_defs)
  have "\<not> canReach chain 2 0" "canReach chain 0 2" "canReach chain 0 1" "canReach chain 1 2"
    by (simp_all add: example_defs eval_defs)
  then have l: "(2, 0) \<notin> (links chain)\<^sup>*" "(0, 2) \<in> (links chain)\<^sup>*"
      "(0, 1) \<in> (links chain)\<^sup>*" "(1, 2) \<in> (links chain)\<^sup>*"
    using inv m by (simp_all add: canReach_iff_links)
  have d: "1 \<notin> set (reachableTo (cc_heap chain 2))" "2 \<notin> set (reachableTo (cc_heap chain 0))"
    by (simp_all add: example_defs eval_defs)
  have n: "0 \<in> set (cc_nodes (cc_heap chain 0))" "1 \<in> set (cc_nodes (cc_heap chain 1))"
    by (simp_all add: example_defs eval_defs)
  have v: "connectedComponents (projr (connect chain 2 0)) = [2]"
    by (simp add: example_defs eval_defs)
  have ac: "acyclic (live_links chain)"
    by (rule reachable_acyclic [OF reachable_chain])
  from C3_cycle_members_merged [OF inv ac m(1,2) l(2)] l n
  have "connectedComponent (node_heap (projr (connect chain 2 0)) 0) = 2
      \<and> connectedComponent (node_heap (projr (connect chain 2 0)) 1) = 2"
    by force
  with inv ac m l d v show ?thesis by blast
qed

text \<open>
  C4. On a roadmap built by the public operations whose metric is non-negative and
  zero exactly on equal configurations (the contract of section 6 of the specification):
  if some node has the configuration \<open>q\<close>, then \<open>addNode (q)\<close> returns a node of the
  roadmap with configuration \<open>q\<close> and the roadmap itself, unchanged; and in every case
  \<open>addNode (q)\<close> returns normally a node with configuration \<open>q\<close>, and calling it again on
  the resulting roadmap returns the same node and changes nothing.
\<close>

theorem C4_addNode_idempotent:
  assumes "reachable rm"
    and "\<forall>a b. 0 \<le> distance rm a b"
    and "\<forall>a b. (distance rm a b = 0) = (a = b)"
  shows "(\<forall>m\<in>set (nodes rm). configuration (node_heap rm m) = q \<longrightarrow>
            (\<exists>n\<in>set (nodes rm). configuration (node_heap rm n) = q
                \<and> addNode rm q = Inr (n, rm)))
       \<and> (\<exists>n rm'. addNode rm q = Inr (n, rm') \<and> configuration (node_heap rm' n) = q
             \<and> addNode rm' q = Inr (n, rm'))"
proof -
  have inv: "roadmap_inv rm" by (rule reachable_inv [OF assms(1)])
  have first: "\<forall>m\<in>set (nodes rm). configuration (node_heap rm m) = q \<longrightarrow>
            (\<exists>n\<in>set (nodes rm). configuration (node_heap rm n) = q
                \<and> addNode rm q = Inr (n, rm))"
    using addNode_existing [OF inv assms(2,3)] by blast
  have second: "\<exists>n rm'. addNode rm q = Inr (n, rm') \<and> configuration (node_heap rm' n) = q
             \<and> addNode rm' q = Inr (n, rm')"
  proof (cases "\<exists>m\<in>set (nodes rm). configuration (node_heap rm m) = q")
    case True
    with first show ?thesis by blast
  next
    case False
    let ?n = "next_node rm"
    let ?rm = "snd (addNode_fresh rm q)"
    have a: "addNode rm q = Inr (?n, ?rm)"
      using addNode_new [OF inv, of q] False by (simp add: addNode_fresh_def)
    have inv': "roadmap_inv ?rm" by (rule roadmap_inv_addNode_fresh [OF inv])
    have d: "distance ?rm = distance rm" by (simp add: addNode_fresh_def)
    have nodes': "nodes ?rm = nodes rm @ [?n]" by (simp add: addNode_fresh_def)
    have fresh: "?n \<notin> set (nodes rm)" using inv unfolding roadmap_inv_def by blast
    have conf_new: "configuration (node_heap ?rm ?n) = q" by (simp add: addNode_fresh_def)
    have conf_old: "\<forall>k\<in>set (nodes rm). configuration (node_heap ?rm k) \<noteq> q"
      using False fresh by (auto simp: addNode_fresh_def)
    from addNode_existing [OF inv', of ?n q] assms(2,3) d nodes' conf_new
    obtain k where k: "k \<in> set (nodes ?rm)" "configuration (node_heap ?rm k) = q"
      "addNode ?rm q = Inr (k, ?rm)"
      by auto
    from k(1,2) conf_old nodes' have "k = ?n" by auto
    with a k(3) conf_new show ?thesis by blast
  qed
  from first second show ?thesis by blast
qed

text \<open>
  C4 (witness): adding \<open>[1]\<close> to the roadmap of three nodes returns node \<open>1\<close> and the
  same roadmap; adding \<open>[0]\<close> twice to a new roadmap returns node \<open>0\<close> both times and
  the second call changes nothing.
\<close>

theorem C4_addNode_idempotent_witness:
  "reachable three_nodes
   \<and> 1 \<in> set (nodes three_nodes) \<and> configuration (node_heap three_nodes 1) = [1]
   \<and> addNode three_nodes [1] = Inr (1, three_nodes)
   \<and> addNode (Roadmap_create example_distance :: unit Roadmap) [0]
       = Inr (0, snd (projr (addNode (Roadmap_create example_distance :: unit Roadmap) [0])))
   \<and> addNode (snd (projr (addNode (Roadmap_create example_distance :: unit Roadmap) [0]))) [0]
       = Inr (0, snd (projr (addNode (Roadmap_create example_distance :: unit Roadmap) [0])))"
proof -
  have d: "distance three_nodes = example_distance"
    by (simp add: three_nodes_def eval_defs)
  have h: "reachable three_nodes" "\<forall>a b. 0 \<le> distance three_nodes a b"
      "\<forall>a b. (distance three_nodes a b = 0) = (a = b)"
    using example_distance_metric reachable_three_nodes by (simp_all add: d)
  have m: "1 \<in> set (nodes three_nodes)" "configuration (node_heap three_nodes 1) = [1]"
    by (simp_all add: three_nodes_def eval_defs)
  from C4_addNode_idempotent [OF h, of "[1]"] m
  obtain n where n: "addNode three_nodes [1] = Inr (n, three_nodes)" by blast
  have "fst (projr (addNode three_nodes [1])) = 1"
    by (simp add: three_nodes_def eval_defs)
  with n have "addNode three_nodes [1] = Inr (1, three_nodes)" by simp
  moreover have "addNode (Roadmap_create example_distance :: unit Roadmap) [0]
       = Inr (0, snd (projr (addNode (Roadmap_create example_distance :: unit Roadmap) [0])))"
    by (simp add: eval_defs)
  moreover have "addNode (snd (projr (addNode (Roadmap_create example_distance :: unit Roadmap) [0]))) [0]
       = Inr (0, snd (projr (addNode (Roadmap_create example_distance :: unit Roadmap) [0])))"
    by (simp add: eval_defs)
  ultimately show ?thesis using h(1) m by blast
qed

text \<open>
  C5. On a roadmap built by the public operations that has a node, \<open>nearestNode (q)\<close>
  returns a node of the roadmap together with its distance to \<open>q\<close>; this distance is the
  least over all nodes of the roadmap, the result of the brute-force scan; and the
  result is the result of the k-d tree search of one of the components, none of the
  per-component searches giving a smaller distance.
\<close>

theorem C5_nearestNode_is_argmin:
  assumes "reachable rm" and "nodes rm \<noteq> []"
  shows "\<exists>n\<in>set (nodes rm).
           nearestNode rm q = (Some n, Finite (node_distance rm q n))
         \<and> node_distance rm q n = nearest_brute_force rm q
         \<and> (\<forall>m\<in>set (nodes rm). node_distance rm q n \<le> node_distance rm q m)
         \<and> (\<exists>c\<in>set (connectedComponents rm). nearestNode rm q = KDTree_search rm q c)
         \<and> (\<forall>c\<in>set (connectedComponents rm).
               \<not> less_value (snd (KDTree_search rm q c)) (snd (nearestNode rm q)))"
proof -
  from nearestNode_found [OF reachable_inv [OF assms(1)] assms(2), of q]
  obtain n where n: "n \<in> set (nodes rm)"
    and r: "nearestNode rm q = (Some n, Finite (node_distance rm q n))"
    and least: "\<forall>m\<in>set (nodes rm). node_distance rm q n \<le> node_distance rm q m"
    by blast
  have "Min ((\<lambda>n. node_distance rm q n) ` set (nodes rm)) = node_distance rm q n"
    using n least by (intro Min_eqI) auto
  then have brute: "node_distance rm q n = nearest_brute_force rm q"
    by (simp add: nearest_brute_force_def)
  from fold_nearestNode_step_min [of rm q "connectedComponents rm" "(None, Infinity)"]
  have "(nearestNode rm q = (None, Infinity)
          \<or> (\<exists>c\<in>set (connectedComponents rm). nearestNode rm q = KDTree_search rm q c))"
    and low: "\<forall>c\<in>set (connectedComponents rm).
               \<not> less_value (snd (KDTree_search rm q c)) (snd (nearestNode rm q))"
    by (simp_all add: nearestNode_def)
  with r have "\<exists>c\<in>set (connectedComponents rm). nearestNode rm q = KDTree_search rm q c"
    by simp
  with n r least brute low show ?thesis by blast
qed

text \<open>
  C5 (witness): in the roadmap of three nodes the nearest node to \<open>[1.6]\<close> is node
  \<open>2\<close>, at distance \<open>1.4\<close>.
\<close>

theorem C5_nearestNode_is_argmin_witness:
  "reachable three_nodes \<and> nodes three_nodes \<noteq> []
   \<and> nearestNode three_nodes [8/5] = (Some 2, Finite (7/5))
   \<and> nearest_brute_force three_nodes [8/5] = 7/5"
proof -
  have r: "reachable three_nodes" by (rule reachable_three_nodes)
  have n: "nodes three_nodes \<noteq> []"
    by (simp add: three_nodes_def eval_defs)
  have v: "nearestNode three_nodes [8/5] = (Some 2, Finite (7/5))"
    by (simp add: three_nodes_def eval_defs)
  from C5_nearestNode_is_argmin [OF r n, of "[8/5]"] v
  have "nearest_brute_force three_nodes [8/5] = 7/5"
    by (auto simp: three_nodes_def eval_defs)
  with r n v show ?thesis by blast
qed

text \<open>
  C10. On a roadmap without connected components, \<open>nearestNode (q)\<close> returns the null
  pointer and \<open>+\<infinity>\<close>, for every \<open>q\<close>. It is a function of the roadmap that returns no
  new roadmap: the roadmap is only read.
\<close>

theorem C10_nearestNode_empty_roadmap:
  "connectedComponents rm = [] \<Longrightarrow> nearestNode rm q = (None, Infinity)"
  by (simp add: nearestNode_def)

text \<open>
  C10 (witness): a new roadmap.
\<close>

theorem C10_nearestNode_empty_roadmap_witness:
  "connectedComponents (Roadmap_create example_distance :: unit Roadmap) = []
   \<and> nearestNode (Roadmap_create example_distance :: unit Roadmap) [1, 2] = (None, Infinity)"
  using C10_nearestNode_empty_roadmap [of "Roadmap_create example_distance :: unit Roadmap" "[1, 2]"]
  by (simp add: Roadmap_create_def)

end
